theory Spec2Isabelle
  imports Complex_Main "HOL-Library.Word"
begin

unbundle bit_operations_syntax

section \<open>Uplink fairness harness (fairness11ax.cc): data model\<close>

text \<open>
  The harness of \<^verbatim>\<open>src/ns3/fairness11ax.cc\<close> runs on top of the ns-3 discrete-event
  simulator.  The development embeds the parts of the file that are the harness's own:
  the per-station counters and the trace handlers that update them, the parsing of the
  rate list, the assignment of arrival rates, the reduction of the counters to the
  reported metrics, and the Poisson traffic source with its self-rescheduling send.

  Conventions of the embedding:
  \<^item> \<^verbatim>\<open>uint32_t\<close> is \<open>32 word\<close> and \<^verbatim>\<open>uint64_t\<close> is \<open>64 word\<close>: \<open>+\<close> wraps around
    as the C++ arithmetic does, \<open>unat\<close> reads the value.
  \<^item> A \<^verbatim>\<open>double\<close> that the code reads, stores or compares is a \<open>real\<close>: the finite
    values, without rounding or overflow.  A division of doubles has a result of type
    \<open>double\<close>, which adds to the finite values the outcome \<open>NonFinite\<close> of a division by
    zero, an infinity or NaN in C++.
  \<^item> \<^verbatim>\<open>std::vector\<close> is a list.  \<^verbatim>\<open>operator[]\<close> with an index outside the vector is
    undefined behaviour in C++; the embedding makes it the error \<open>OutOfRange\<close>.
  \<^item> An exception that nothing catches, and a dereferenced null \<^verbatim>\<open>Ptr\<close>, end the
    process; they are the \<open>Inl\<close> results of the functions below.
\<close>

datatype error =
    InvalidArgument  \<comment> \<open>\<^verbatim>\<open>std::invalid_argument\<close> thrown by \<^verbatim>\<open>std::stod\<close>\<close>
  | StodOutOfRange   \<comment> \<open>\<^verbatim>\<open>std::out_of_range\<close> thrown by \<^verbatim>\<open>std::stod\<close>\<close>
  | OutOfRange       \<comment> \<open>an index outside a \<^verbatim>\<open>std::vector\<close>\<close>
  | NullPointer      \<comment> \<open>a null \<^verbatim>\<open>Ptr\<close> dereferenced\<close>
  | NotModelled      \<comment> \<open>no outcome of the program: the answer of the model \<open>stod\<close> below
                         on input that it does not cover\<close>

type_synonym u32 = "32 word"
type_synonym u64 = "64 word"

subsection \<open>Per-station counters (struct StaStats, lines 126-139)\<close>

record StaStats =
  collisionsLike :: u64
  finalFailures :: u64
  phyTxDrops :: u64
  qBytesSum :: u64
  qSamples :: u64
  heSuTxMpdu :: u64
  heTbTxMpdu :: u64
  heSuTxBytes :: u64
  heTbTxBytes :: u64

text \<open>Every member has the initialiser \<^verbatim>\<open>{0}\<close>.\<close>

definition StaStats_init :: StaStats where
  "StaStats_init =
     \<lparr>collisionsLike = 0, finalFailures = 0, phyTxDrops = 0, qBytesSum = 0, qSamples = 0,
      heSuTxMpdu = 0, heTbTxMpdu = 0, heSuTxBytes = 0, heTbTxBytes = 0\<rparr>"

text \<open>
  \<^verbatim>\<open>(*stats)[staIndex].field ...\<close>: every handler reaches its record through the
  station index.  \<open>at_station\<close> is that access, applying the handler's update \<open>f\<close> to
  the record in place.
\<close>

definition at_station :: "u32 \<Rightarrow> (StaStats \<Rightarrow> StaStats) \<Rightarrow> StaStats list \<Rightarrow> error + StaStats list" where
  "at_station staIndex f stats =
     (if unat staIndex < length stats
      then Inr (stats[unat staIndex := f (stats ! unat staIndex)])
      else Inl OutOfRange)"

subsection \<open>Trace handlers (lines 155-218)\<close>

text \<open>The address and packet arguments of the first three handlers are unused.\<close>

definition OnMacTxDataFailed :: "u32 \<Rightarrow> StaStats list \<Rightarrow> error + StaStats list" where
  "OnMacTxDataFailed staIndex stats =
     at_station staIndex (\<lambda>r. r\<lparr>collisionsLike := collisionsLike r + 1\<rparr>) stats"

definition OnMacTxFinalDataFailed :: "u32 \<Rightarrow> StaStats list \<Rightarrow> error + StaStats list" where
  "OnMacTxFinalDataFailed staIndex stats =
     at_station staIndex (\<lambda>r. r\<lparr>finalFailures := finalFailures r + 1\<rparr>) stats"

definition OnPhyTxDrop :: "u32 \<Rightarrow> StaStats list \<Rightarrow> error + StaStats list" where
  "OnPhyTxDrop staIndex stats =
     at_station staIndex (\<lambda>r. r\<lparr>phyTxDrops := phyTxDrops r + 1\<rparr>) stats"

text \<open>
  Modelled from the spec: the access-mode tag of a transmitted frame, which is ns-3's
  \<^verbatim>\<open>WifiPreamble\<close> with the enumerators of its header wifi-phy-common.h.  The source
  names two of them: \<^verbatim>\<open>WIFI_PREAMBLE_HE_TB\<close>, the trigger-based frame of scheduled
  multi-user access, and \<^verbatim>\<open>WIFI_PREAMBLE_HE_SU\<close>, the frame of single-user access.
\<close>

datatype WifiPreamble =
    WIFI_PREAMBLE_LONG
  | WIFI_PREAMBLE_SHORT
  | WIFI_PREAMBLE_HT_MF
  | WIFI_PREAMBLE_VHT_SU
  | WIFI_PREAMBLE_VHT_MU
  | WIFI_PREAMBLE_DMG_CTRL
  | WIFI_PREAMBLE_DMG_SC
  | WIFI_PREAMBLE_DMG_OFDM
  | WIFI_PREAMBLE_HE_SU
  | WIFI_PREAMBLE_HE_ER_SU
  | WIFI_PREAMBLE_HE_MU
  | WIFI_PREAMBLE_HE_TB
  | WIFI_PREAMBLE_EHT_MU
  | WIFI_PREAMBLE_EHT_TB

text \<open>
  \<^verbatim>\<open>OnHePhyTxMonitor\<close>.  The packet pointer \<open>p\<close> is \<open>None\<close> when null and otherwise
  carries the packet's size; \<open>pre\<close> is \<^verbatim>\<open>txVector.GetPreambleType()\<close>.  The 32-bit size is
  widened to 64 bits by \<^verbatim>\<open>+=\<close>.  The remaining arguments are unused.
\<close>

definition OnHePhyTxMonitor ::
  "u32 \<Rightarrow> u32 option \<Rightarrow> WifiPreamble \<Rightarrow> StaStats list \<Rightarrow> error + StaStats list" where
  "OnHePhyTxMonitor staIndex p pre stats =
     (let bytes = (case p of Some sz \<Rightarrow> sz | None \<Rightarrow> 0) in
      if pre = WIFI_PREAMBLE_HE_TB then
        (case at_station staIndex (\<lambda>r. r\<lparr>heTbTxMpdu := heTbTxMpdu r + 1\<rparr>) stats of
           Inl e \<Rightarrow> Inl e
         | Inr stats1 \<Rightarrow>
             at_station staIndex (\<lambda>r. r\<lparr>heTbTxBytes := heTbTxBytes r + ucast bytes\<rparr>) stats1)
      else if pre = WIFI_PREAMBLE_HE_SU then
        (case at_station staIndex (\<lambda>r. r\<lparr>heSuTxMpdu := heSuTxMpdu r + 1\<rparr>) stats of
           Inl e \<Rightarrow> Inl e
         | Inr stats1 \<Rightarrow>
             at_station staIndex (\<lambda>r. r\<lparr>heSuTxBytes := heSuTxBytes r + ucast bytes\<rparr>) stats1)
      else Inr stats)"

text \<open>
  \<^verbatim>\<open>SampleQueue\<close>: \<open>qBytes\<close> is the number of bytes read from the station's BE queue
  (0 when the device has no such queue).  The sampler then schedules itself again one
  millisecond later; that event is the simulator's, and each of its firings is one call
  of this function.
\<close>

definition SampleQueue :: "u32 \<Rightarrow> u32 \<Rightarrow> StaStats list \<Rightarrow> error + StaStats list" where
  "SampleQueue staIndex qBytes stats =
     (case at_station staIndex (\<lambda>r. r\<lparr>qBytesSum := qBytesSum r + ucast qBytes\<rparr>) stats of
        Inl e \<Rightarrow> Inl e
      | Inr stats1 \<Rightarrow> at_station staIndex (\<lambda>r. r\<lparr>qSamples := qSamples r + 1\<rparr>) stats1)"

subsection \<open>Trace wiring and the delivery of notifications (lines 433-478)\<close>

text \<open>
  A loop over a list whose body can end the process: the state is threaded through the
  body from left to right, and the first error is the result.
\<close>

primrec foldM :: "('a \<Rightarrow> 's \<Rightarrow> error + 's) \<Rightarrow> 'a list \<Rightarrow> 's \<Rightarrow> error + 's" where
  "foldM f [] s = Inr s"
| "foldM f (x # xs) s = (case f x s of Inl e \<Rightarrow> Inl e | Inr s' \<Rightarrow> foldM f xs s')"

text \<open>
  The trace sources that \<^verbatim>\<open>main\<close> connects to, and the four handlers.  A binding is one
  \<^verbatim>\<open>TraceConnectWithoutContext\<close>: the device (by station index) whose trace source it is,
  the source, the handler, and the station index that \<^verbatim>\<open>MakeBoundCallback\<close> closes over.
\<close>

datatype trace_source = MacTxDataFailed | MacTxFinalDataFailed | PhyTxDrop | MonitorSnifferTx

datatype handler = HMacTxDataFailed | HMacTxFinalDataFailed | HPhyTxDrop | HHePhyTxMonitor

record binding =
  b_device :: u32
  b_source :: trace_source
  b_handler :: handler
  b_index :: u32

text \<open>
  The body of the wiring loop for station \<open>i\<close>: three handlers for every station, and
  \<open>OnHePhyTxMonitor\<close> under the test \<^verbatim>\<open>i >= nLegacy\<close>.  The loop runs \<open>i\<close> from 0 up to
  \<open>nTotal\<close>.
\<close>

definition wire_station :: "u32 \<Rightarrow> u32 \<Rightarrow> binding list" where
  "wire_station nLegacy i =
     [\<lparr>b_device = i, b_source = MacTxDataFailed, b_handler = HMacTxDataFailed, b_index = i\<rparr>,
      \<lparr>b_device = i, b_source = MacTxFinalDataFailed, b_handler = HMacTxFinalDataFailed, b_index = i\<rparr>,
      \<lparr>b_device = i, b_source = PhyTxDrop, b_handler = HPhyTxDrop, b_index = i\<rparr>] @
     (if i \<ge> nLegacy
      then [\<lparr>b_device = i, b_source = MonitorSnifferTx, b_handler = HHePhyTxMonitor, b_index = i\<rparr>]
      else [])"

definition trace_wiring :: "u32 \<Rightarrow> u32 \<Rightarrow> binding list" where
  "trace_wiring nLegacy nTotal =
     concat (map (\<lambda>k. wire_station nLegacy (of_nat k)) [0..<unat nTotal])"

text \<open>
  What the simulator delivers during a run.  \<open>TraceFired d s p pre\<close>: trace source \<open>s\<close> of
  device \<open>d\<close> fires, with the packet (its size, or \<open>None\<close> for a null pointer) and the
  preamble of the frame; only \<open>OnHePhyTxMonitor\<close> reads the two.  Every handler bound to
  that source of that device is invoked.  \<open>QueueProbeFired i q\<close>: the sampler of station
  \<open>i\<close> runs and reads \<open>q\<close> bytes; \<^verbatim>\<open>main\<close> schedules a sampler for each \<open>i < nTotal\<close>, and
  a sampler reschedules itself only.  A run is any sequence of deliveries, starting
  from the table \<^verbatim>\<open>stats(nTotal)\<close> of zeros.
\<close>

datatype notification =
    TraceFired u32 trace_source "u32 option" WifiPreamble
  | QueueProbeFired u32 u32

definition invoke :: "binding \<Rightarrow> u32 option \<Rightarrow> WifiPreamble \<Rightarrow> StaStats list \<Rightarrow> error + StaStats list" where
  "invoke b p pre stats =
     (case b_handler b of
        HMacTxDataFailed \<Rightarrow> OnMacTxDataFailed (b_index b) stats
      | HMacTxFinalDataFailed \<Rightarrow> OnMacTxFinalDataFailed (b_index b) stats
      | HPhyTxDrop \<Rightarrow> OnPhyTxDrop (b_index b) stats
      | HHePhyTxMonitor \<Rightarrow> OnHePhyTxMonitor (b_index b) p pre stats)"

definition deliver :: "u32 \<Rightarrow> u32 \<Rightarrow> notification \<Rightarrow> StaStats list \<Rightarrow> error + StaStats list" where
  "deliver nLegacy nTotal ev stats =
     (case ev of
        TraceFired d s p pre \<Rightarrow>
          foldM (\<lambda>b st. invoke b p pre st)
            (filter (\<lambda>b. b_device b = d \<and> b_source b = s) (trace_wiring nLegacy nTotal)) stats
      | QueueProbeFired i q \<Rightarrow>
          if i < nTotal then SampleQueue i q stats else Inr stats)"

definition run_notifications :: "u32 \<Rightarrow> u32 \<Rightarrow> notification list \<Rightarrow> error + StaStats list" where
  "run_notifications nLegacy nTotal evs =
     foldM (deliver nLegacy nTotal) evs (replicate (unat nTotal) StaStats_init)"

text \<open>
  The invariant of the run: the table keeps its length, and the frame counters of the
  stations below \<open>L\<close> are zero.
\<close>

definition he_untouched :: "nat \<Rightarrow> nat \<Rightarrow> StaStats list \<Rightarrow> bool" where
  "he_untouched n L stats \<longleftrightarrow>
     length stats = n \<and>
     (\<forall>i. i < L \<and> i < n \<longrightarrow>
        heSuTxMpdu (stats ! i) = 0 \<and> heTbTxMpdu (stats ! i) = 0 \<and>
        heSuTxBytes (stats ! i) = 0 \<and> heTbTxBytes (stats ! i) = 0)"

section \<open>Rate list and rate assignment\<close>

subsection \<open>ParseCsvDoubles (lines 109-123)\<close>

text \<open>
  \<^verbatim>\<open>while (std::getline(ss, item, ','))\<close>: the items the loop sees, in order.  \<open>item\<close>
  holds the characters read since the last comma.  A comma ends an item, which may be
  empty; at the end of the string, an item is delivered only if characters were read
  for it (a \<^verbatim>\<open>getline\<close> that extracts nothing fails and ends the loop).
\<close>

primrec getline_items :: "string \<Rightarrow> string \<Rightarrow> string list" where
  "getline_items item [] = (if item = [] then [] else [item])"
| "getline_items item (c # cs) =
     (if c = CHR '','' then item # getline_items [] cs else getline_items (item @ [c]) cs)"

text \<open>
  \<^verbatim>\<open>ParseCsvDoubles\<close>.  \<open>conv\<close> is the conversion \<^verbatim>\<open>std::stod\<close> of the C++ library, taken
  as a parameter: it returns the value it read, or the exception it threw.  The
  function does not catch the exception, so the first item that \<open>conv\<close> rejects ends
  the run of the loop, and of the program.
\<close>

definition ParseCsvDoubles :: "(string \<Rightarrow> error + real) \<Rightarrow> string \<Rightarrow> error + real list" where
  "ParseCsvDoubles conv s =
     (if s = [] then Inr []
      else foldM (\<lambda>item out.
                    if item \<noteq> [] then (case conv item of Inl e \<Rightarrow> Inl e | Inr v \<Rightarrow> Inr (out @ [v]))
                    else Inr out)
             (getline_items [] s) [])"

subsection \<open>A model of std::stod on plain decimal input\<close>

text \<open>
  \<^verbatim>\<open>std::stod\<close> is the C++ library's, not the harness's.  \<open>stod\<close> follows the library's
  description of it (\<^verbatim>\<open>strtod\<close> in the C locale) on the input where that description
  gives a finite value or \<^verbatim>\<open>std::invalid_argument\<close> without further knowledge of the
  platform: leading white space is skipped, a sign may follow, then the longest run of
  decimal digits with an optional decimal point is converted, and whatever follows is
  ignored; when no digit can be read the function throws \<^verbatim>\<open>std::invalid_argument\<close>.
  On all other input \<open>stod\<close> answers \<open>NotModelled\<close> and so says nothing about the
  program: when the number starts like \<^verbatim>\<open>inf\<close>, \<^verbatim>\<open>nan\<close> or a hexadecimal number, when an
  exponent may follow the digits, and when there are more than 15 digits (beyond which
  a value can leave the range of \<^verbatim>\<open>double\<close>, where \<^verbatim>\<open>std::stod\<close> throws
  \<^verbatim>\<open>std::out_of_range\<close>).  The general statements below hold for every \<open>conv\<close>.
\<close>

definition is_space :: "char \<Rightarrow> bool" where
  "is_space c \<longleftrightarrow> c \<in> set [CHR '' '', CHR 0x09, CHR 0x0A, CHR 0x0B, CHR 0x0C, CHR 0x0D]"

definition is_digit :: "char \<Rightarrow> bool" where
  "is_digit c \<longleftrightarrow> c \<in> set ''0123456789''"

definition digit_val :: "char \<Rightarrow> nat" where
  "digit_val c = of_char c - 48"

definition decimal :: "string \<Rightarrow> nat" where
  "decimal ds = foldl (\<lambda>n c. 10 * n + digit_val c) 0 ds"

definition stod_sign :: "string \<Rightarrow> bool \<times> string" where
  "stod_sign s =
     (case s of
        [] \<Rightarrow> (False, [])
      | c # r \<Rightarrow> if c = CHR ''-'' then (True, r) else if c = CHR ''+'' then (False, r) else (False, s))"

text \<open>
  The starts that \<open>stod\<close> leaves alone: of the number, a letter that can begin \<^verbatim>\<open>inf\<close> or
  \<^verbatim>\<open>nan\<close>, or the prefix \<^verbatim>\<open>0x\<close>; after the digits, the letter of an exponent.
\<close>

definition special_start :: "string \<Rightarrow> bool" where
  "special_start s =
     (case s of
        [] \<Rightarrow> False
      | c # r \<Rightarrow>
          c \<in> set ''iInN'' \<or>
          (c = CHR ''0'' \<and> (case r of [] \<Rightarrow> False | x # _ \<Rightarrow> x \<in> set ''xX'')))"

definition exponent_start :: "string \<Rightarrow> bool" where
  "exponent_start s = (case s of [] \<Rightarrow> False | c # _ \<Rightarrow> c \<in> set ''eE'')"

definition stod :: "string \<Rightarrow> error + real" where
  "stod str =
     (let (neg, s1) = stod_sign (dropWhile is_space str);
          ip = takeWhile is_digit s1;
          s2 = dropWhile is_digit s1;
          fp = (case s2 of [] \<Rightarrow> [] | c # r \<Rightarrow> if c = CHR ''.'' then takeWhile is_digit r else []);
          s3 = (case s2 of [] \<Rightarrow> [] | c # r \<Rightarrow> if c = CHR ''.'' then dropWhile is_digit r else s2);
          m = real (decimal (ip @ fp)) / 10 ^ length fp
      in if special_start s1 \<or> exponent_start s3 \<or> length (ip @ fp) > 15 then Inl NotModelled
         else if ip = [] \<and> fp = [] then Inl InvalidArgument
         else Inr (if neg then - m else m))"

text \<open>
  The entries of the rate list that \<^verbatim>\<open>ParseCsvDoubles\<close> converts: the items that are not
  empty.
\<close>

definition rate_entries :: "string \<Rightarrow> string list" where
  "rate_entries s = filter (\<lambda>item. item \<noteq> []) (getline_items [] s)"

subsection \<open>Rate assignment (lines 254 and 385-398)\<close>

text \<open>\<^verbatim>\<open>lambdas[i] = x\<close>: a write into the vector.\<close>

definition set_at :: "nat \<Rightarrow> 'a \<Rightarrow> 'a list \<Rightarrow> error + 'a list" where
  "set_at i x xs = (if i < length xs then Inr (xs[i := x]) else Inl OutOfRange)"

text \<open>
  The assignment of \<^verbatim>\<open>main\<close>, after the list is parsed.  \<open>nTotal\<close> is the 32-bit sum of
  line 254, and the vector starts as \<open>nTotal\<close> zeros.  The loop variables \<open>i\<close> and \<open>j\<close> are
  \<^verbatim>\<open>uint32_t\<close>; the index \<^verbatim>\<open>nLegacy + j\<close> is a 32-bit sum as well.
\<close>

definition lambda_assignment :: "u32 \<Rightarrow> u32 \<Rightarrow> real list \<Rightarrow> real \<Rightarrow> real \<Rightarrow> error + real list" where
  "lambda_assignment nLegacy mHe parsed lambdaLegacy lambdaHe =
     (let nTotal = nLegacy + mHe;
          lambdas = replicate (unat nTotal) 0
      in if parsed \<noteq> [] then
           foldM (\<lambda>i. set_at i (if i < length parsed then parsed ! i else last parsed))
             [0..<unat nTotal] lambdas
         else
           (case foldM (\<lambda>i. set_at i lambdaLegacy) [0..<unat nLegacy] lambdas of
              Inl e \<Rightarrow> Inl e
            | Inr lambdas1 \<Rightarrow>
                foldM (\<lambda>j. set_at (unat (nLegacy + of_nat j)) lambdaHe) [0..<unat mHe] lambdas1))"

text \<open>Lines 385-398 as a whole: parse the list, then assign.\<close>

definition main_lambdas ::
  "(string \<Rightarrow> error + real) \<Rightarrow> string \<Rightarrow> u32 \<Rightarrow> u32 \<Rightarrow> real \<Rightarrow> real \<Rightarrow> error + real list" where
  "main_lambdas conv lambdaListCsv nLegacy mHe lambdaLegacy lambdaHe =
     (case ParseCsvDoubles conv lambdaListCsv of
        Inl e \<Rightarrow> Inl e
      | Inr parsed \<Rightarrow> lambda_assignment nLegacy mHe parsed lambdaLegacy lambdaHe)"

section \<open>Result reduction (lines 484-513)\<close>

text \<open>
  The result of a division of doubles: a finite value, or \<open>NonFinite\<close> for the infinity
  or NaN that a division by zero gives in C++.  \<open>fdiv\<close> is the operator \<^verbatim>\<open>/\<close> on finite
  doubles.
\<close>

datatype double = Finite real | NonFinite

definition fdiv :: "real \<Rightarrow> real \<Rightarrow> double" where
  "fdiv a b = (if b = 0 then NonFinite else Finite (a / b))"

text \<open>
  \<^verbatim>\<open>thrMbps\<close> and \<^verbatim>\<open>avgQ\<close> of the results loop.  \<^verbatim>\<open>rxBytes * 8.0\<close> converts the 64-bit
  total to \<^verbatim>\<open>double\<close> before it multiplies, so the product does not wrap around;
  \<^verbatim>\<open>1e6\<close> is 1000000.  In \<^verbatim>\<open>avgQ\<close> both counters are converted to \<^verbatim>\<open>double\<close> for the
  division, which the test \<^verbatim>\<open>qSamples > 0\<close> guards; the other branch is the constant
  \<^verbatim>\<open>0.0\<close>.  The division of \<^verbatim>\<open>thrMbps\<close> has no guard.
\<close>

definition thrMbps :: "u64 \<Rightarrow> real \<Rightarrow> double" where
  "thrMbps rxBytes measuredInterval =
     fdiv (real (unat rxBytes) * 8) (measuredInterval * 1000000)"

definition avgQ :: "StaStats \<Rightarrow> double" where
  "avgQ st =
     (if qSamples st > 0 then fdiv (real (unat (qBytesSum st))) (real (unat (qSamples st)))
      else Finite 0)"

text \<open>
  One line of the report: the fields that the loop prints for a station.  The three
  vectors \<^verbatim>\<open>sinks\<close> (here the totals \<^verbatim>\<open>GetTotalRx()\<close> of the sinks), \<^verbatim>\<open>lambdas\<close> and
  \<^verbatim>\<open>stats\<close> are indexed by the station.
\<close>

record report_line =
  rl_index :: u32
  rl_isLegacy :: bool
  rl_lambda :: real
  rl_thrMbps :: double
  rl_avgQ :: double
  rl_stats :: StaStats

text \<open>\<^verbatim>\<open>v[i]\<close> read from a vector, and the body of the results loop for station \<open>i\<close>.\<close>

definition nth_checked :: "'a list \<Rightarrow> nat \<Rightarrow> error + 'a" where
  "nth_checked xs i = (if i < length xs then Inr (xs ! i) else Inl OutOfRange)"

definition report_station ::
  "u32 \<Rightarrow> real \<Rightarrow> u64 list \<Rightarrow> real list \<Rightarrow> StaStats list \<Rightarrow> u32 \<Rightarrow> error + report_line" where
  "report_station nLegacy simTime sinksRx lambdas stats i =
     (case nth_checked sinksRx (unat i) of Inl e \<Rightarrow> Inl e | Inr rxBytes \<Rightarrow>
      case nth_checked stats (unat i) of Inl e \<Rightarrow> Inl e | Inr st \<Rightarrow>
      case nth_checked lambdas (unat i) of Inl e \<Rightarrow> Inl e | Inr lam \<Rightarrow>
        Inr \<lparr>rl_index = i, rl_isLegacy = (i < nLegacy), rl_lambda = lam,
             rl_thrMbps = thrMbps rxBytes simTime, rl_avgQ = avgQ st, rl_stats = st\<rparr>)"

text \<open>
  The results loop: one line per station, \<open>i\<close> from 0 up to \<open>nTotal\<close>; \<open>simTime\<close> is the
  \<^verbatim>\<open>measuredInterval\<close>.
\<close>

primrec mapM :: "('a \<Rightarrow> error + 'b) \<Rightarrow> 'a list \<Rightarrow> error + 'b list" where
  "mapM f [] = Inr []"
| "mapM f (x # xs) =
     (case f x of Inl e \<Rightarrow> Inl e
      | Inr y \<Rightarrow> (case mapM f xs of Inl e \<Rightarrow> Inl e | Inr ys \<Rightarrow> Inr (y # ys)))"

definition print_results ::
  "u32 \<Rightarrow> u32 \<Rightarrow> real \<Rightarrow> u64 list \<Rightarrow> real list \<Rightarrow> StaStats list \<Rightarrow> error + report_line list" where
  "print_results nLegacy nTotal simTime sinksRx lambdas stats =
     mapM (\<lambda>k. report_station nLegacy simTime sinksRx lambdas stats (of_nat k)) [0..<unat nTotal]"

section \<open>The traffic source (class PoissonUdpApp, lines 21-105)\<close>

subsection \<open>What the source uses of the simulator\<close>

text \<open>
  Modelled from the spec: the event queue of the ns-3 simulator, which is not part of
  the harness.  Section 6 of the specification asks of it ``a monotonic virtual clock
  with schedule/cancel of delayed callbacks'', and section 5 fixes the order of
  delivery: nondecreasing virtual time, and scheduling order among events of the same
  time.  An event carries the unique id the simulator gave it, its time, the source
  whose \<^verbatim>\<open>SendOnce\<close> it calls, and the mark that \<^verbatim>\<open>Simulator::Cancel\<close> sets.  Virtual
  time counts the ticks of the simulator's clock as a natural number.
\<close>

record event =
  ev_uid :: nat
  ev_ts :: nat
  ev_target :: nat
  ev_cancelled :: bool

text \<open>
  Modelled from the spec: the socket, ns-3's as well (section 6: ``send/receive
  primitives over addressed endpoints'').  The embedding keeps the calls the source
  made on it, oldest first; \<open>Send sz\<close> is \<^verbatim>\<open>Send\<close> of a packet of \<open>sz\<close> bytes.
\<close>

type_synonym address = nat

datatype socket_call = Bind | Connect address | Send u32 | Close

type_synonym socket = "socket_call list"

text \<open>
  Modelled from the spec: ns-3's random variable \<^verbatim>\<open>ExponentialRandomVariable\<close> (section
  4.2: the delay is drawn from an exponential distribution with mean \<open>1 / rate\<close>).  It
  has its attribute \<^verbatim>\<open>Mean\<close>, the values it is going to return, and the number of values
  it has returned.  The values are given from outside, so that a statement about every
  \<open>rng\<close> is one about every outcome of the draws; \<open>rng_values r k\<close> is draw number \<open>k\<close>
  as the delay \<^verbatim>\<open>Seconds(dt)\<close> in ticks.
\<close>

record rng =
  rng_mean :: real
  rng_values :: "nat \<Rightarrow> nat"
  rng_drawn :: nat

definition GetValue :: "rng \<Rightarrow> nat \<times> rng" where
  "GetValue r = (rng_values r (rng_drawn r), r\<lparr>rng_drawn := rng_drawn r + 1\<rparr>)"

subsection \<open>The source and the world it runs in\<close>

text \<open>
  The members of the class.  \<open>m_socket\<close> is \<open>None\<close> for a null pointer.  \<open>m_sendEvent\<close> is
  the id of the event last scheduled, \<open>None\<close> for the \<^verbatim>\<open>EventId\<close> that was never
  assigned.
\<close>

record PoissonUdpApp =
  m_socket :: "socket option"
  m_peer :: address
  m_pktSize :: u32
  m_lambda :: real
  m_maxPackets :: u64
  m_sent :: u64
  m_running :: bool
  m_sendEvent :: "nat option"
  m_rng :: rng

text \<open>
  \<^verbatim>\<open>Setup\<close>, called by \<^verbatim>\<open>main\<close> on each newly created source (lines 425-426): the
  source as it is after the call.  \<open>draws\<close> are the values of the random variable that
  \<^verbatim>\<open>Setup\<close> creates; its mean is set only for a positive rate and is 1 otherwise.
\<close>

definition Setup ::
  "socket option \<Rightarrow> address \<Rightarrow> u32 \<Rightarrow> real \<Rightarrow> u64 \<Rightarrow> (nat \<Rightarrow> nat) \<Rightarrow> PoissonUdpApp" where
  "Setup sock peer pktSize lambdaPktsPerSec maxPackets draws =
     \<lparr>m_socket = sock, m_peer = peer, m_pktSize = pktSize, m_lambda = lambdaPktsPerSec,
      m_maxPackets = maxPackets, m_sent = 0, m_running = False, m_sendEvent = None,
      m_rng = \<lparr>rng_mean = (if lambdaPktsPerSec > 0 then 1 / lambdaPktsPerSec else 1),
               rng_values = draws, rng_drawn = 0\<rparr>\<rparr>"

text \<open>
  The world: the sources by station index, and the simulator with its clock, the next
  free event id, the events not yet processed, and the log of the callbacks it has
  invoked (time and source), which the properties read.
\<close>

record world =
  apps :: "nat \<Rightarrow> PoissonUdpApp"
  sim_now :: nat
  sim_uid :: nat
  sim_events :: "event list"
  sim_log :: "(nat \<times> nat) list"

definition upd_app :: "nat \<Rightarrow> (PoissonUdpApp \<Rightarrow> PoissonUdpApp) \<Rightarrow> world \<Rightarrow> world" where
  "upd_app i f w = w\<lparr>apps := (apps w)(i := f (apps w i))\<rparr>"

text \<open>
  Modelled from the spec: \<^verbatim>\<open>Simulator::Schedule\<close>, \<^verbatim>\<open>EventId::IsPending\<close> and
  \<^verbatim>\<open>Simulator::Cancel\<close> of the simulator, which is not part of the harness.  A
  scheduled event gets a fresh id and the time \<open>now + delay\<close>.  An event is pending when
  it is in the queue and not cancelled.  Cancelling marks the event; it stays in the
  queue and is skipped when its time comes.
\<close>

definition Schedule :: "nat \<Rightarrow> nat \<Rightarrow> world \<Rightarrow> nat \<times> world" where
  "Schedule delay target w =
     (sim_uid w,
      w\<lparr>sim_uid := sim_uid w + 1,
        sim_events := sim_events w @
          [\<lparr>ev_uid = sim_uid w, ev_ts = sim_now w + delay, ev_target = target,
            ev_cancelled = False\<rparr>]\<rparr>)"

definition IsPending :: "nat option \<Rightarrow> world \<Rightarrow> bool" where
  "IsPending eid w =
     (case eid of
        None \<Rightarrow> False
      | Some u \<Rightarrow> \<exists>e \<in> set (sim_events w). ev_uid e = u \<and> \<not> ev_cancelled e)"

definition Cancel :: "nat option \<Rightarrow> world \<Rightarrow> world" where
  "Cancel eid w =
     (case eid of
        None \<Rightarrow> w
      | Some u \<Rightarrow>
          w\<lparr>sim_events :=
              map (\<lambda>e. if ev_uid e = u then e\<lparr>ev_cancelled := True\<rparr> else e) (sim_events w)\<rparr>)"

subsection \<open>The methods of the source\<close>

text \<open>\<^verbatim>\<open>ScheduleNext\<close> (lines 83-93) of the source of station \<open>i\<close>.\<close>

definition ScheduleNext :: "nat \<Rightarrow> world \<Rightarrow> world" where
  "ScheduleNext i w =
     (if \<not> m_running (apps w i) then w
      else if m_lambda (apps w i) \<le> 0 then w
      else
        (let (dt, r) = GetValue (m_rng (apps w i));
             (eid, w1) = Schedule dt i (upd_app i (\<lambda>a. a\<lparr>m_rng := r\<rparr>) w)
         in upd_app i (\<lambda>a. a\<lparr>m_sendEvent := Some eid\<rparr>) w1))"

text \<open>
  \<^verbatim>\<open>StartApplication\<close> (lines 47-53).  \<^verbatim>\<open>m_socket->Bind()\<close> on a null socket ends the
  process.
\<close>

definition StartApplication :: "nat \<Rightarrow> world \<Rightarrow> error + world" where
  "StartApplication i w =
     (let w1 = upd_app i (\<lambda>a. a\<lparr>m_running := True\<rparr>) w in
      case m_socket (apps w1 i) of
        None \<Rightarrow> Inl NullPointer
      | Some s \<Rightarrow>
          Inr (ScheduleNext i
                 (upd_app i (\<lambda>a. a\<lparr>m_socket := Some (s @ [Bind, Connect (m_peer a)])\<rparr>) w1)))"

text \<open>\<^verbatim>\<open>StopApplication\<close> (lines 55-66).\<close>

definition StopApplication :: "nat \<Rightarrow> world \<Rightarrow> world" where
  "StopApplication i w =
     (let w1 = upd_app i (\<lambda>a. a\<lparr>m_running := False\<rparr>) w;
          w2 = (if IsPending (m_sendEvent (apps w1 i)) w1
                then Cancel (m_sendEvent (apps w1 i)) w1 else w1)
      in case m_socket (apps w2 i) of
           None \<Rightarrow> w2
         | Some s \<Rightarrow> upd_app i (\<lambda>a. a\<lparr>m_socket := Some (s @ [Close])\<rparr>) w2)"

text \<open>
  \<^verbatim>\<open>SendOnce\<close> (lines 68-81).  \<^verbatim>\<open>m_socket->Send(p)\<close> on a null socket ends the process;
  \<^verbatim>\<open>m_sent++\<close> counts modulo \<open>2^64\<close>.
\<close>

definition SendOnce :: "nat \<Rightarrow> world \<Rightarrow> error + world" where
  "SendOnce i w =
     (if \<not> m_running (apps w i) then Inr w
      else if m_maxPackets (apps w i) \<noteq> 0 \<and> m_sent (apps w i) \<ge> m_maxPackets (apps w i)
      then Inr w
      else
        (case m_socket (apps w i) of
           None \<Rightarrow> Inl NullPointer
         | Some s \<Rightarrow>
             Inr (ScheduleNext i
                    (upd_app i (\<lambda>a. a\<lparr>m_socket := Some (s @ [Send (m_pktSize a)]),
                                      m_sent := m_sent a + 1\<rparr>) w))))"

subsection \<open>The run of the simulator\<close>

text \<open>
  Modelled from the spec: the simulator's main loop, which is not part of the harness.
  The next event is the one with the least time and, among those of that time, the
  least id (ids grow in scheduling order).  Processing it removes it from the queue and
  advances the clock to its time; a cancelled event does nothing more, any other calls
  \<^verbatim>\<open>SendOnce\<close> of its source, which the log records.
\<close>

definition earlier :: "event \<Rightarrow> event \<Rightarrow> bool" where
  "earlier a b \<longleftrightarrow> ev_ts a < ev_ts b \<or> (ev_ts a = ev_ts b \<and> ev_uid a < ev_uid b)"

primrec next_event :: "event list \<Rightarrow> event option" where
  "next_event [] = None"
| "next_event (e # es) =
     (case next_event es of
        None \<Rightarrow> Some e
      | Some m \<Rightarrow> if earlier m e then Some m else Some e)"

definition ProcessOneEvent :: "world \<Rightarrow> error + world" where
  "ProcessOneEvent w =
     (case next_event (sim_events w) of
        None \<Rightarrow> Inr w
      | Some e \<Rightarrow>
          (let w1 = w\<lparr>sim_now := ev_ts e, sim_events := remove1 e (sim_events w)\<rparr> in
           if ev_cancelled e then Inr w1
           else SendOnce (ev_target e)
                  (w1\<lparr>sim_log := sim_log w1 @ [(ev_ts e, ev_target e)]\<rparr>)))"

text \<open>
  What happens to the sources during a run: the simulator processes its next event, or
  the application framework starts or stops a source.  A run is a sequence of such
  steps; it ends early when a step ends the process.
\<close>

datatype action = RunEvent | StartApp nat | StopApp nat

fun step :: "action \<Rightarrow> world \<Rightarrow> error + world" where
  "step RunEvent w = ProcessOneEvent w"
| "step (StartApp i) w = StartApplication i w"
| "step (StopApp i) w = Inr (StopApplication i w)"

definition exec :: "action list \<Rightarrow> world \<Rightarrow> error + world" where
  "exec acts w = foldM step acts w"

text \<open>
  The events of source \<open>i\<close> that are in the queue and not cancelled, and the entries of
  the log that are calls of its \<^verbatim>\<open>SendOnce\<close>.
\<close>

definition pending_for :: "nat \<Rightarrow> world \<Rightarrow> event list" where
  "pending_for i w = filter (\<lambda>e. ev_target e = i \<and> \<not> ev_cancelled e) (sim_events w)"

definition calls_of :: "nat \<Rightarrow> world \<Rightarrow> (nat \<times> nat) list" where
  "calls_of i w = filter (\<lambda>c. snd c = i) (sim_log w)"

text \<open>
  The invariant of a source: every pending event of the source is the one its
  \<open>m_sendEvent\<close> names, and while one is pending the source is running, has a positive
  rate and has its socket.
\<close>

definition source_inv :: "nat \<Rightarrow> world \<Rightarrow> bool" where
  "source_inv i w \<longleftrightarrow>
     (\<forall>e \<in> set (sim_events w).
        ev_target e = i \<and> \<not> ev_cancelled e \<longrightarrow>
          m_sendEvent (apps w i) = Some (ev_uid e) \<and> m_running (apps w i) \<and>
          \<not> m_lambda (apps w i) \<le> 0 \<and> m_socket (apps w i) \<noteq> None)"

text \<open>The ids in the queue are distinct and below the next free id.\<close>

definition uids_fresh :: "world \<Rightarrow> bool" where
  "uids_fresh w \<longleftrightarrow>
     distinct (map ev_uid (sim_events w)) \<and> (\<forall>e \<in> set (sim_events w). ev_uid e < sim_uid w)"

text \<open>A stopped source with nothing left in the queue.\<close>

definition quiet :: "nat \<Rightarrow> world \<Rightarrow> bool" where
  "quiet i w \<longleftrightarrow> \<not> m_running (apps w i) \<and> pending_for i w = []"

text \<open>The world of \<open>StopApplication\<close> before the socket is closed.\<close>

definition stop_cancel :: "nat \<Rightarrow> world \<Rightarrow> world" where
  "stop_cancel i w =
     (let w1 = upd_app i (\<lambda>a. a\<lparr>m_running := False\<rparr>) w in
      if IsPending (m_sendEvent (apps w1 i)) w1 then Cancel (m_sendEvent (apps w1 i)) w1 else w1)"

text \<open>
  An example run.  Two sources are set up as \<^verbatim>\<open>main\<close> does it, both with a socket, a
  payload of 1200 bytes and no send cap; source 0 has the rate 100 and source 1 the
  rate 0.  Draw number \<open>n\<close> of either random variable is the delay \<open>5 + n\<close>.
  \<open>demo_started\<close> is the world after source 0 has been started.
\<close>

definition demo_world :: world where
  "demo_world =
     \<lparr>apps = (\<lambda>k. Setup (Some []) 7 1200 (if k = 0 then 100 else 0) 0 (\<lambda>n. 5 + n)),
      sim_now = 0, sim_uid = 0, sim_events = [], sim_log = []\<rparr>"

definition demo_started :: world where
  "demo_started =
     \<lparr>apps = (\<lambda>k. Setup (Some []) 7 1200 (if k = 0 then 100 else 0) 0 (\<lambda>n. 5 + n))
         (0 := \<lparr>m_socket = Some [Bind, Connect 7], m_peer = 7, m_pktSize = 1200, m_lambda = 100,
                m_maxPackets = 0, m_sent = 0, m_running = True, m_sendEvent = Some 0,
                m_rng = \<lparr>rng_mean = 1 / 100, rng_values = (\<lambda>n. 5 + n), rng_drawn = 1\<rparr>\<rparr>),
      sim_now = 0, sim_uid = 1,
      sim_events = [\<lparr>ev_uid = 0, ev_ts = 5, ev_target = 0, ev_cancelled = False\<rparr>],
      sim_log = []\<rparr>"

section \<open>Properties of the trace handlers\<close>

lemma at_station_in_range:
  "unat i < length stats \<Longrightarrow>
     at_station i f stats = Inr (stats[unat i := f (stats ! unat i)])"
  by (simp add: at_station_def)

lemma at_station_length:
  "at_station i f stats = Inr stats' \<Longrightarrow> length stats' = length stats"
  by (auto simp: at_station_def split: if_splits)

text \<open>
  C9.  For a station index inside the table, each of \<open>OnMacTxDataFailed\<close>,
  \<open>OnMacTxFinalDataFailed\<close> and \<open>OnPhyTxDrop\<close> returns a table (it does not fail) of the
  same length, in which the record of station \<open>i\<close> is the old record with exactly one
  field, \<open>collisionsLike\<close>, \<open>finalFailures\<close> and \<open>phyTxDrops\<close> respectively, increased by 1
  (modulo \<open>2^64\<close>, as \<^verbatim>\<open>uint64_t\<close> counts), and every other station's record is the old one.
\<close>

theorem failure_handlers_frame:
  assumes "unat i < length stats"
  shows "\<exists>s1 s2 s3.
           OnMacTxDataFailed i stats = Inr s1 \<and>
           OnMacTxFinalDataFailed i stats = Inr s2 \<and>
           OnPhyTxDrop i stats = Inr s3 \<and>
           length s1 = length stats \<and> length s2 = length stats \<and> length s3 = length stats \<and>
           s1 ! unat i = (stats ! unat i)\<lparr>collisionsLike := collisionsLike (stats ! unat i) + 1\<rparr> \<and>
           s2 ! unat i = (stats ! unat i)\<lparr>finalFailures := finalFailures (stats ! unat i) + 1\<rparr> \<and>
           s3 ! unat i = (stats ! unat i)\<lparr>phyTxDrops := phyTxDrops (stats ! unat i) + 1\<rparr> \<and>
           (\<forall>j. j < length stats \<and> j \<noteq> unat i \<longrightarrow>
                s1 ! j = stats ! j \<and> s2 ! j = stats ! j \<and> s3 ! j = stats ! j)"
  using assms
  by (simp add: OnMacTxDataFailed_def OnMacTxFinalDataFailed_def OnPhyTxDrop_def
      at_station_in_range)

theorem failure_handlers_frame_witness:
  "unat (1 :: u32) < length [StaStats_init, StaStats_init] \<and>
   OnMacTxDataFailed 1 [StaStats_init, StaStats_init]
     = Inr [StaStats_init, StaStats_init\<lparr>collisionsLike := 1\<rparr>] \<and>
   OnMacTxFinalDataFailed 1 [StaStats_init, StaStats_init]
     = Inr [StaStats_init, StaStats_init\<lparr>finalFailures := 1\<rparr>] \<and>
   OnPhyTxDrop 1 [StaStats_init, StaStats_init]
     = Inr [StaStats_init, StaStats_init\<lparr>phyTxDrops := 1\<rparr>]"
  using failure_handlers_frame [of 1 "[StaStats_init, StaStats_init]"]
  by (simp add: OnMacTxDataFailed_def OnMacTxFinalDataFailed_def OnPhyTxDrop_def
      at_station_def StaStats_init_def)

text \<open>
  C7.  One notification of a transmitted frame, for a station index inside the table.
  With the tag \<^verbatim>\<open>WIFI_PREAMBLE_HE_TB\<close> (scheduled, multi-user access) the station's
  \<open>heTbTxMpdu\<close> grows by 1 and its \<open>heTbTxBytes\<close> by the frame's size; with the tag
  \<^verbatim>\<open>WIFI_PREAMBLE_HE_SU\<close> (single-user access) \<open>heSuTxMpdu\<close> and \<open>heSuTxBytes\<close> grow the
  same way; with every other tag the table is returned as it was.  A null packet
  counts with size 0.  No other field and no other station's record changes.
\<close>

theorem frame_classification:
  assumes "unat i < length stats"
  shows "OnHePhyTxMonitor i p pre stats =
     Inr (if pre = WIFI_PREAMBLE_HE_TB then
            stats[unat i := (stats ! unat i)
               \<lparr>heTbTxMpdu := heTbTxMpdu (stats ! unat i) + 1,
                heTbTxBytes := heTbTxBytes (stats ! unat i)
                                 + ucast (case p of Some sz \<Rightarrow> sz | None \<Rightarrow> 0)\<rparr>]
          else if pre = WIFI_PREAMBLE_HE_SU then
            stats[unat i := (stats ! unat i)
               \<lparr>heSuTxMpdu := heSuTxMpdu (stats ! unat i) + 1,
                heSuTxBytes := heSuTxBytes (stats ! unat i)
                                 + ucast (case p of Some sz \<Rightarrow> sz | None \<Rightarrow> 0)\<rparr>]
          else stats)"
  using assms
  by (simp add: OnHePhyTxMonitor_def at_station_def Let_def)

theorem frame_classification_witness:
  "unat (0 :: u32) < length [StaStats_init] \<and>
   OnHePhyTxMonitor 0 (Some 1200) WIFI_PREAMBLE_HE_TB [StaStats_init]
     = Inr [StaStats_init\<lparr>heTbTxMpdu := 1, heTbTxBytes := 1200\<rparr>] \<and>
   OnHePhyTxMonitor 0 (Some 1200) WIFI_PREAMBLE_HE_SU [StaStats_init]
     = Inr [StaStats_init\<lparr>heSuTxMpdu := 1, heSuTxBytes := 1200\<rparr>] \<and>
   OnHePhyTxMonitor 0 (Some 1200) WIFI_PREAMBLE_HE_MU [StaStats_init] = Inr [StaStats_init]"
  using frame_classification [of 0 "[StaStats_init]" "Some 1200" WIFI_PREAMBLE_HE_TB]
  by (simp add: OnHePhyTxMonitor_def at_station_def StaStats_init_def)

lemma wiring_bound:
  assumes "b \<in> set (trace_wiring nLegacy nTotal)"
  shows "unat (b_index b) < unat nTotal \<and> (b_handler b = HHePhyTxMonitor \<longrightarrow> nLegacy \<le> b_index b)"
proof -
  from assms obtain k where k: "k < unat nTotal" and b: "b \<in> set (wire_station nLegacy (of_nat k))"
    by (auto simp: trace_wiring_def)
  from k have "unat (of_nat k :: u32) = k" by (simp add: le_unat_uoi [of k nTotal])
  with k b show ?thesis by (auto simp: wire_station_def split: if_splits)
qed

lemma invoke_he_untouched:
  assumes b: "unat (b_index b) < unat nTotal"
          "b_handler b = HHePhyTxMonitor \<longrightarrow> nLegacy \<le> b_index b"
      and inv: "he_untouched (unat nTotal) (unat nLegacy) stats"
  shows "\<exists>stats'. invoke b p pre stats = Inr stats' \<and> he_untouched (unat nTotal) (unat nLegacy) stats'"
proof (cases "b_handler b")
  case HHePhyTxMonitor
  with b have "unat nLegacy \<le> unat (b_index b)" by (simp add: word_le_nat_alt)
  with b inv HHePhyTxMonitor show ?thesis
    by (auto simp: invoke_def OnHePhyTxMonitor_def at_station_def he_untouched_def Let_def nth_list_update)
qed (use b inv in \<open>auto simp: invoke_def OnMacTxDataFailed_def OnMacTxFinalDataFailed_def
       OnPhyTxDrop_def at_station_def he_untouched_def nth_list_update\<close>)

lemma foldM_invoke_he_untouched:
  assumes "\<forall>b \<in> set bs. unat (b_index b) < unat nTotal \<and>
             (b_handler b = HHePhyTxMonitor \<longrightarrow> nLegacy \<le> b_index b)"
      and "he_untouched (unat nTotal) (unat nLegacy) stats"
  shows "\<exists>stats'. foldM (\<lambda>b st. invoke b p pre st) bs stats = Inr stats' \<and>
           he_untouched (unat nTotal) (unat nLegacy) stats'"
  using assms
proof (induction bs arbitrary: stats)
  case Nil
  then show ?case by simp
next
  case (Cons b bs)
  then obtain s1 where s1: "invoke b p pre stats = Inr s1" "he_untouched (unat nTotal) (unat nLegacy) s1"
    using invoke_he_untouched [of b nTotal nLegacy stats p pre] by auto
  with Cons.IH [of s1] Cons.prems show ?case by simp
qed

lemma deliver_he_untouched:
  assumes "he_untouched (unat nTotal) (unat nLegacy) stats"
  shows "\<exists>stats'. deliver nLegacy nTotal ev stats = Inr stats' \<and>
           he_untouched (unat nTotal) (unat nLegacy) stats'"
proof (cases ev)
  case (TraceFired d s p pre)
  show ?thesis
    unfolding TraceFired deliver_def notification.case
    by (rule foldM_invoke_he_untouched) (use assms wiring_bound in auto)
next
  case (QueueProbeFired i q)
  with assms show ?thesis
    by (auto simp: deliver_def SampleQueue_def at_station_def he_untouched_def nth_list_update
        word_less_nat_alt)
qed

lemma run_he_untouched:
  assumes "he_untouched (unat nTotal) (unat nLegacy) stats"
  shows "\<exists>stats'. foldM (deliver nLegacy nTotal) evs stats = Inr stats' \<and>
           he_untouched (unat nTotal) (unat nLegacy) stats'"
  using assms
proof (induction evs arbitrary: stats)
  case Nil
  then show ?case by simp
next
  case (Cons ev evs)
  then obtain s1 where "deliver nLegacy nTotal ev stats = Inr s1" "he_untouched (unat nTotal) (unat nLegacy) s1"
    using deliver_he_untouched [of nTotal nLegacy stats ev] by auto
  with Cons.IH [of s1] show ?case by simp
qed

text \<open>
  C10.  The table starts as \<open>nTotal\<close> records of zeros, and \<open>OnHePhyTxMonitor\<close> is
  connected for the stations \<open>i \<ge> nLegacy\<close> only.  So whatever notifications the
  simulator delivers during a run, and in whatever order, the run does not fail and at
  its end the four frame counters of every legacy station \<open>i < nLegacy\<close> are 0.
\<close>

theorem legacy_frame_counters_zero:
  "\<exists>stats. run_notifications nLegacy nTotal evs = Inr stats \<and> length stats = unat nTotal \<and>
     (\<forall>i. i < unat nLegacy \<and> i < unat nTotal \<longrightarrow>
        heSuTxMpdu (stats ! i) = 0 \<and> heTbTxMpdu (stats ! i) = 0 \<and>
        heSuTxBytes (stats ! i) = 0 \<and> heTbTxBytes (stats ! i) = 0)"
proof -
  have "he_untouched (unat nTotal) (unat nLegacy) (replicate (unat nTotal) StaStats_init)"
    by (simp add: he_untouched_def StaStats_init_def)
  from run_he_untouched [OF this, of evs] show ?thesis
    by (auto simp: run_notifications_def he_untouched_def)
qed

lemma wiring_1_2:
  "trace_wiring 1 2 =
     [\<lparr>b_device = 0, b_source = MacTxDataFailed, b_handler = HMacTxDataFailed, b_index = 0\<rparr>,
      \<lparr>b_device = 0, b_source = MacTxFinalDataFailed, b_handler = HMacTxFinalDataFailed, b_index = 0\<rparr>,
      \<lparr>b_device = 0, b_source = PhyTxDrop, b_handler = HPhyTxDrop, b_index = 0\<rparr>,
      \<lparr>b_device = 1, b_source = MacTxDataFailed, b_handler = HMacTxDataFailed, b_index = 1\<rparr>,
      \<lparr>b_device = 1, b_source = MacTxFinalDataFailed, b_handler = HMacTxFinalDataFailed, b_index = 1\<rparr>,
      \<lparr>b_device = 1, b_source = PhyTxDrop, b_handler = HPhyTxDrop, b_index = 1\<rparr>,
      \<lparr>b_device = 1, b_source = MonitorSnifferTx, b_handler = HHePhyTxMonitor, b_index = 1\<rparr>]"
proof -
  have "[0..<unat (2 :: u32)] = [0, 1]"
    by (simp add: upt_conv_Cons)
  then show ?thesis
    by (simp add: trace_wiring_def wire_station_def)
qed

theorem legacy_frame_counters_zero_witness:
  "(0 :: nat) < unat (1 :: u32) \<and> (0 :: nat) < unat (2 :: u32) \<and>
   run_notifications 1 2
     [TraceFired 0 MonitorSnifferTx (Some 1200) WIFI_PREAMBLE_HE_SU,
      TraceFired 1 MonitorSnifferTx (Some 1200) WIFI_PREAMBLE_HE_TB,
      TraceFired 0 PhyTxDrop None WIFI_PREAMBLE_LONG]
   = Inr [StaStats_init\<lparr>phyTxDrops := 1\<rparr>,
          StaStats_init\<lparr>heTbTxMpdu := 1, heTbTxBytes := 1200\<rparr>] \<and>
   heSuTxMpdu (StaStats_init\<lparr>phyTxDrops := 1\<rparr>) = 0 \<and>
   heTbTxMpdu (StaStats_init\<lparr>phyTxDrops := 1\<rparr>) = 0 \<and>
   heSuTxBytes (StaStats_init\<lparr>phyTxDrops := 1\<rparr>) = 0 \<and>
   heTbTxBytes (StaStats_init\<lparr>phyTxDrops := 1\<rparr>) = 0"
proof -
  have "replicate (unat (2 :: u32)) StaStats_init = [StaStats_init, StaStats_init]"
  proof -
    have "unat (2 :: u32) = Suc (Suc 0)" by simp
    then show ?thesis by (simp only: replicate.simps)
  qed
  then show ?thesis
    using legacy_frame_counters_zero [of 1 2
     "[TraceFired 0 MonitorSnifferTx (Some 1200) WIFI_PREAMBLE_HE_SU,
       TraceFired 1 MonitorSnifferTx (Some 1200) WIFI_PREAMBLE_HE_TB,
       TraceFired 0 PhyTxDrop None WIFI_PREAMBLE_LONG]"]
    by (simp add: run_notifications_def deliver_def wiring_1_2 invoke_def
      OnHePhyTxMonitor_def OnPhyTxDrop_def at_station_def StaStats_init_def)
qed

section \<open>Properties of the rate assignment\<close>

lemma foldM_append:
  "foldM f (xs @ ys) s = (case foldM f xs s of Inl e \<Rightarrow> Inl e | Inr s' \<Rightarrow> foldM f ys s')"
  by (induction xs arbitrary: s) (auto split: sum.splits)

lemma foldM_cong_set:
  "(\<And>x s. x \<in> set xs \<Longrightarrow> f x s = g x s) \<Longrightarrow> foldM f xs s = foldM g xs s"
  by (induction xs arbitrary: s) (auto split: sum.splits)

lemma fill_loop:
  "a + n \<le> length v \<Longrightarrow>
     foldM (\<lambda>j. set_at (a + j) (g j)) [0..<n] v = Inr (take a v @ map g [0..<n] @ drop (a + n) v)"
proof (induction n)
  case 0
  then show ?case by simp
next
  case (Suc n)
  let ?w = "take a v @ map g [0..<n] @ drop (a + n) v"
  have len: "a + n < length ?w" using Suc.prems by simp
  have d: "drop (a + n) v = v ! (a + n) # drop (a + Suc n) v"
    using Suc.prems by (simp add: Cons_nth_drop_Suc)
  have "?w[a + n := g n] = take a v @ map g [0..<n] @ [g n] @ drop (a + Suc n) v"
    using Suc.prems by (simp add: list_update_append d)
  with Suc len show ?case
    by (simp add: foldM_append set_at_def)
qed


lemma map_const_upt: "map (\<lambda>_. x) [0..<n] = replicate n x"
  by (induction n) (auto simp: replicate_append_same)

lemma lambda_assignment_list:
  assumes "parsed \<noteq> []"
  shows "lambda_assignment nLegacy mHe parsed dl dh =
           Inr (map (\<lambda>i. if i < length parsed then parsed ! i else last parsed)
                  [0..<unat (nLegacy + mHe)])"
  using assms fill_loop [of 0 "unat (nLegacy + mHe)" "replicate (unat (nLegacy + mHe)) 0"
      "\<lambda>i. if i < length parsed then parsed ! i else last parsed"]
  by (simp add: lambda_assignment_def Let_def)

lemma lambda_assignment_default:
  assumes "unat nLegacy + unat mHe < 2 ^ 32"
  shows "lambda_assignment nLegacy mHe [] dl dh =
           Inr (replicate (unat nLegacy) dl @ replicate (unat mHe) dh)"
proof -
  let ?L = "unat nLegacy" and ?M = "unat mHe"
  from assms have tot: "unat (nLegacy + mHe) = ?L + ?M"
    by (simp add: unat_add_lem [THEN iffD1])
  have first: "foldM (\<lambda>i. set_at i dl) [0..<?L] (replicate (?L + ?M) 0)
                 = Inr (replicate ?L dl @ replicate ?M 0)"
    using fill_loop [of 0 ?L "replicate (?L + ?M) 0" "\<lambda>_. dl"]
    by (simp add: map_const_upt)
  have idx: "unat (nLegacy + of_nat j) = ?L + j" if "j < ?M" for j
  proof -
    from that have "unat (of_nat j :: u32) = j" by (simp add: le_unat_uoi [of j mHe])
    moreover from that assms have "?L + j < 2 ^ 32" by simp
    ultimately show ?thesis
      using unat_add_lem [of nLegacy "of_nat j"] by simp
  qed
  have "foldM (\<lambda>j. set_at (unat (nLegacy + of_nat j)) dh) [0..<?M] (replicate ?L dl @ replicate ?M 0)
          = foldM (\<lambda>j. set_at (?L + j) dh) [0..<?M] (replicate ?L dl @ replicate ?M 0)"
    by (rule foldM_cong_set) (simp add: idx)
  also have "\<dots> = Inr (replicate ?L dl @ replicate ?M dh)"
    using fill_loop [of ?L ?M "replicate ?L dl @ replicate ?M 0" "\<lambda>_. dh"]
    by (simp add: map_const_upt)
  finally show ?thesis
    by (simp add: lambda_assignment_def Let_def tot first)
qed

text \<open>
  C4.  When the parsed rate list has at least one entry, the assignment succeeds, the
  rate vector has \<open>N\<close> entries (\<open>N\<close> the 32-bit sum \<^verbatim>\<open>nTotal\<close> of the two station counts,
  which is their sum when that is below \<open>2^32\<close>), and for every station index \<open>i < N\<close> entry \<open>i\<close> is \<open>list[i]\<close> if \<open>i\<close> is less than the
  list's length and the list's last element otherwise.  In particular the list
  \<open>[50, 80]\<close> with \<open>nLegacy = 1\<close> and \<open>mHe = 3\<close> gives \<open>[50, 80, 80, 80]\<close>.
\<close>

theorem explicit_rate_list:
  assumes "ParseCsvDoubles conv csv = Inr parsed" and "parsed \<noteq> []"
  shows "\<exists>v. main_lambdas conv csv nLegacy mHe dl dh = Inr v \<and>
           length v = unat (nLegacy + mHe) \<and>
           (unat nLegacy + unat mHe < 2 ^ 32 \<longrightarrow> length v = unat nLegacy + unat mHe) \<and>
           (\<forall>i. i < unat (nLegacy + mHe) \<longrightarrow>
                v ! i = (if i < length parsed then parsed ! i else last parsed)) \<and>
           lambda_assignment 1 3 [50, 80] dl dh = Inr [50, 80, 80, 80]"
proof -
  have "map (\<lambda>i. if i < length [50, 80 :: real] then [50, 80] ! i else last [50, 80])
          [0..<unat (1 + 3 :: u32)] = [50, 80, 80, 80]"
    by (simp add: upt_rec)
  then have "lambda_assignment 1 3 [50, 80] dl dh = Inr [50, 80, 80, 80]"
    using lambda_assignment_list [of "[50, 80]" 1 3 dl dh] by simp
  with assms show ?thesis
    by (simp add: main_lambdas_def lambda_assignment_list unat_add_lem [THEN iffD1])
qed

theorem explicit_rate_list_witness:
  "ParseCsvDoubles stod ''50,80'' = Inr [50, 80] \<and> [50, 80 :: real] \<noteq> [] \<and>
   main_lambdas stod ''50,80'' 1 3 1000 1000 = Inr [50, 80, 80, 80]"
proof -
  have p: "ParseCsvDoubles stod ''50,80'' = Inr [50, 80]"
    by (simp add: ParseCsvDoubles_def stod_def stod_sign_def special_start_def exponent_start_def is_space_def
        is_digit_def decimal_def digit_val_def)
  have "[50, 80 :: real] \<noteq> []" by simp
  from explicit_rate_list [OF p this, of 1 3 1000 1000] p show ?thesis
    by (auto simp: main_lambdas_def)
qed

text \<open>
  C5.  When no rate list is supplied (the parsed list is empty) and the station counts
  sum to less than \<open>2^32\<close>, the assignment succeeds with a vector of
  \<open>N = nLegacy + mHe\<close> entries in which every index below \<open>nLegacy\<close> holds the legacy
  default and every index from \<open>nLegacy\<close> up to \<open>N\<close> holds the HE default.  In particular
  \<open>nLegacy = 2\<close>, \<open>mHe = 1\<close> and the defaults 100 and 200 give \<open>[100, 100, 200]\<close>.
\<close>

theorem default_rates:
  assumes "ParseCsvDoubles conv csv = Inr []" and "unat nLegacy + unat mHe < 2 ^ 32"
  shows "\<exists>v. main_lambdas conv csv nLegacy mHe dl dh = Inr v \<and>
           length v = unat nLegacy + unat mHe \<and>
           (\<forall>i. i < unat nLegacy \<longrightarrow> v ! i = dl) \<and>
           (\<forall>i. unat nLegacy \<le> i \<and> i < unat nLegacy + unat mHe \<longrightarrow> v ! i = dh) \<and>
           main_lambdas conv [] 2 1 100 200 = Inr [100, 100, 200]"
proof -
  have ex: "main_lambdas conv [] 2 1 100 200 = Inr [100, 100, 200]"
  proof -
    have "replicate (unat (2 :: u32)) (100 :: real) @ replicate (unat (1 :: u32)) 200
            = [100, 100, 200]"
    proof -
      have "unat (2 :: u32) = Suc (Suc 0)" "unat (1 :: u32) = Suc 0" by simp_all
      then show ?thesis by (simp only: replicate.simps append.simps)
    qed
    then show ?thesis
      using lambda_assignment_default [of 2 1 100 200]
      by (simp add: main_lambdas_def ParseCsvDoubles_def)
  qed
  have "main_lambdas conv csv nLegacy mHe dl dh
          = Inr (replicate (unat nLegacy) dl @ replicate (unat mHe) dh)"
    using assms by (simp add: main_lambdas_def lambda_assignment_default)
  moreover have "(replicate (unat nLegacy) dl @ replicate (unat mHe) dh) ! i = dl"
    if "i < unat nLegacy" for i
    using that by (simp add: nth_append)
  moreover have "(replicate (unat nLegacy) dl @ replicate (unat mHe) dh) ! i = dh"
    if "unat nLegacy \<le> i" "i < unat nLegacy + unat mHe" for i
    using that by (simp add: nth_append)
  ultimately show ?thesis
    using ex by simp
qed

theorem default_rates_witness:
  "ParseCsvDoubles stod [] = Inr [] \<and> unat (2 :: u32) + unat (1 :: u32) < 2 ^ 32 \<and>
   main_lambdas stod [] 2 1 100 200 = Inr [100, 100, 200]"
  using default_rates [of stod "[]" 2 1 100 200]
  by (auto simp: ParseCsvDoubles_def)

section \<open>Properties of the rate-list parser\<close>

lemma mapM_all_Inr:
  "(\<And>x. x \<in> set xs \<Longrightarrow> f x = Inr (g x)) \<Longrightarrow> mapM f xs = Inr (map g xs)"
  by (induction xs) auto

lemma mapM_fails_iff: "(\<exists>e. mapM f xs = Inl e) \<longleftrightarrow> (\<exists>x \<in> set xs. isl (f x))"
  by (induction xs) (auto split: sum.splits)

lemma mapM_first_error:
  "(\<forall>x \<in> set pre. \<not> isl (f x)) \<Longrightarrow> f item = Inl e \<Longrightarrow> mapM f (pre @ item # post) = Inl e"
  by (induction pre) (auto split: sum.splits)

lemma mapM_values: "map f xs = map Inr vs \<Longrightarrow> mapM f xs = Inr vs"
  by (induction xs arbitrary: vs) auto

lemma parse_loop_mapM:
  "foldM (\<lambda>item out.
            if item \<noteq> [] then (case conv item of Inl e \<Rightarrow> Inl e | Inr v \<Rightarrow> Inr (out @ [v]))
            else Inr out) items (acc :: real list)
   = (case mapM conv (filter (\<lambda>item. item \<noteq> []) items) of
        Inl e \<Rightarrow> Inl e
      | Inr vs \<Rightarrow> Inr (acc @ vs))"
  by (induction items arbitrary: acc) (auto split: sum.splits)

lemma ParseCsvDoubles_mapM: "ParseCsvDoubles conv s = mapM conv (rate_entries s)"
  by (cases "s = []")
     (simp_all add: ParseCsvDoubles_def rate_entries_def parse_loop_mapM split: sum.splits)

lemma first_rejected:
  assumes "\<exists>item \<in> set entries. isl (conv item)"
  shows "\<exists>pre item post e.
           entries = pre @ item # post \<and> (\<forall>x \<in> set pre. \<not> isl (conv x)) \<and> conv item = Inl e"
proof -
  from split_list_first_prop [OF assms] obtain pre item post where
    d: "entries = pre @ item # post" "isl (conv item)" "\<forall>x \<in> set pre. \<not> isl (conv x)"
    by blast
  from d(2) obtain e where "conv item = Inl e" by (cases "conv item") auto
  with d show ?thesis by blast
qed

text \<open>
  C6, as amended.  For every rate list with a non-empty entry that the conversion
  \<^verbatim>\<open>std::stod\<close> rejects, parsing fails, with the exception that the conversion threw at
  the first such entry, rather than producing a rate vector.  Parsing fails only
  then: when the conversion accepts every non-empty entry, the result is the vector of
  the values it returned, in the order of the entries, and empty entries are never
  converted.  The statement holds for every conversion, whatever it accepts and
  rejects: parsing is the conversion applied to the non-empty entries from left to
  right, up to the first exception.
\<close>

theorem rate_list_outcome:
  "ParseCsvDoubles conv s = mapM conv (rate_entries s) \<and>
   ((\<exists>e. ParseCsvDoubles conv s = Inl e) \<longleftrightarrow> (\<exists>item \<in> set (rate_entries s). isl (conv item))) \<and>
   ((\<exists>item \<in> set (rate_entries s). isl (conv item)) \<longrightarrow>
      (\<exists>pre item post e.
         rate_entries s = pre @ item # post \<and> (\<forall>x \<in> set pre. \<not> isl (conv x)) \<and>
         conv item = Inl e \<and> ParseCsvDoubles conv s = Inl e)) \<and>
   (\<forall>pre item post e.
      rate_entries s = pre @ item # post \<and> (\<forall>x \<in> set pre. \<not> isl (conv x)) \<and> conv item = Inl e
      \<longrightarrow> ParseCsvDoubles conv s = Inl e) \<and>
   (\<forall>vs. map conv (rate_entries s) = map Inr vs \<longrightarrow> ParseCsvDoubles conv s = Inr vs)"
proof -
  have "\<exists>pre item post e.
          rate_entries s = pre @ item # post \<and> (\<forall>x \<in> set pre. \<not> isl (conv x)) \<and>
          conv item = Inl e \<and> ParseCsvDoubles conv s = Inl e"
    if "\<exists>item \<in> set (rate_entries s). isl (conv item)"
  proof -
    from first_rejected [OF that] obtain pre item post e where
      d: "rate_entries s = pre @ item # post" "\<forall>x \<in> set pre. \<not> isl (conv x)" "conv item = Inl e"
      by blast
    then have "ParseCsvDoubles conv s = Inl e"
      by (simp add: ParseCsvDoubles_mapM mapM_first_error)
    with d show ?thesis by blast
  qed
  then show ?thesis
    by (simp add: ParseCsvDoubles_mapM mapM_fails_iff mapM_first_error mapM_values)
qed

lemma stod_examples:
  "stod ''50'' = Inr 50" "stod ''80'' = Inr 80" "stod ''8x'' = Inr 8"
  "stod ''x8'' = Inl InvalidArgument"
  by (simp_all add: stod_def stod_sign_def special_start_def exponent_start_def is_space_def
      is_digit_def decimal_def digit_val_def)

theorem rate_list_outcome_witness:
  "rate_entries ''50,x8,80'' = [''50''] @ ''x8'' # [''80''] \<and>
   \<not> isl (stod ''50'') \<and> stod ''x8'' = Inl InvalidArgument \<and>
   ParseCsvDoubles stod ''50,x8,80'' = Inl InvalidArgument \<and>
   map stod (rate_entries ''50,,80'') = map Inr [50, 80] \<and>
   ParseCsvDoubles stod ''50,,80'' = Inr [50, 80]"
proof -
  have a: "rate_entries ''50,x8,80'' = [''50''] @ ''x8'' # [''80'']"
    by (simp add: rate_entries_def)
  have b: "map stod (rate_entries ''50,,80'') = map Inr [50, 80]"
    by (simp add: rate_entries_def stod_examples)
  from rate_list_outcome [of stod "''50,x8,80''"] a
  have "ParseCsvDoubles stod ''50,x8,80'' = Inl InvalidArgument"
    by (simp add: stod_examples)
  moreover from rate_list_outcome [of stod "''50,,80''"] b
  have "ParseCsvDoubles stod ''50,,80'' = Inr [50, 80]"
    by blast
  ultimately show ?thesis
    using a b by (simp add: stod_examples)
qed

text \<open>
  C6 as stated fails: the entry \<open>8x\<close> of the list \<open>50,8x\<close> is not numeric, and the list
  is parsed to the rates 50 and 8.
\<close>

theorem non_numeric_entry_accepted:
  "getline_items [] ''50,8x'' = [''50'', ''8x''] \<and> \<not> is_digit (CHR ''x'') \<and>
   ParseCsvDoubles stod ''50,8x'' = Inr [50, 8]"
  by (simp add: ParseCsvDoubles_def stod_def stod_sign_def special_start_def exponent_start_def
      is_space_def is_digit_def decimal_def digit_val_def)

section \<open>Properties of the result reduction\<close>

lemma fdiv_zero: "fdiv a 0 = NonFinite"
  by (simp add: fdiv_def)

lemma avgQ_Finite:
  "avgQ st =
     Finite (if 0 < unat (qSamples st)
             then real (unat (qBytesSum st)) / real (unat (qSamples st)) else 0)"
proof (cases "qSamples st = 0")
  case True
  then show ?thesis by (simp add: avgQ_def)
next
  case False
  then have "0 < unat (qSamples st)" by (simp add: unat_gt_0)
  moreover from False have "real (unat (qSamples st)) \<noteq> 0"
    by (simp add: unsigned_eq_0_iff)
  ultimately show ?thesis
    by (simp add: avgQ_def fdiv_def word_less_nat_alt)
qed

text \<open>
  C8.  For every station \<open>k\<close> the results loop reports as throughput the quotient of
  \<open>rxBytes * 8\<close> by \<open>simTime * 10^6\<close>: the number \<open>rxBytes * 8 / (simTime * 10^6)\<close> when
  \<open>simTime \<noteq> 0\<close>, and no number (the infinity or NaN of a division by zero) when
  \<open>simTime = 0\<close>.  As average queue occupancy it reports the quotient of \<open>qBytesSum\<close> by
  \<open>qSamples\<close> when \<open>qSamples > 0\<close> and exactly 0 when \<open>qSamples = 0\<close>, where the quotient
  itself would be no number.  The average is always a number: it is never the result
  of a division by zero.
\<close>

theorem reported_metrics:
  assumes "length sinksRx = unat nTotal" and "length stats = unat nTotal"
      and "length lambdas = unat nTotal" and "k < unat nTotal"
  shows "\<exists>rows. print_results nLegacy nTotal simTime sinksRx lambdas stats = Inr rows \<and>
           length rows = unat nTotal \<and>
           rl_thrMbps (rows ! k) = fdiv (real (unat (sinksRx ! k)) * 8) (simTime * 1000000) \<and>
           (simTime \<noteq> 0 \<longrightarrow>
              rl_thrMbps (rows ! k) = Finite (real (unat (sinksRx ! k)) * 8 / (simTime * 1000000))) \<and>
           (simTime = 0 \<longrightarrow> rl_thrMbps (rows ! k) = NonFinite) \<and>
           (0 < qSamples (stats ! k) \<longrightarrow>
              rl_avgQ (rows ! k) =
                fdiv (real (unat (qBytesSum (stats ! k)))) (real (unat (qSamples (stats ! k)))) \<and>
              rl_avgQ (rows ! k) =
                Finite (real (unat (qBytesSum (stats ! k))) / real (unat (qSamples (stats ! k))))) \<and>
           (qSamples (stats ! k) = 0 \<longrightarrow>
              rl_avgQ (rows ! k) = Finite 0 \<and>
              fdiv (real (unat (qBytesSum (stats ! k)))) (real (unat (qSamples (stats ! k))))
                = NonFinite) \<and>
           (\<forall>a. rl_avgQ (rows ! k) \<noteq> fdiv a 0)"
proof -
  let ?row = "\<lambda>j. \<lparr>rl_index = of_nat j :: u32, rl_isLegacy = (of_nat j < nLegacy),
      rl_lambda = lambdas ! j, rl_thrMbps = thrMbps (sinksRx ! j) simTime,
      rl_avgQ = avgQ (stats ! j), rl_stats = stats ! j\<rparr>"
  have "report_station nLegacy simTime sinksRx lambdas stats (of_nat j) = Inr (?row j)"
    if "j \<in> set [0..<unat nTotal]" for j
  proof -
    from that have "unat (of_nat j :: u32) = j" by (simp add: le_unat_uoi [of j nTotal])
    with that assms show ?thesis by (simp add: report_station_def nth_checked_def)
  qed
  then have rows: "print_results nLegacy nTotal simTime sinksRx lambdas stats
               = Inr (map ?row [0..<unat nTotal])"
    unfolding print_results_def by (rule mapM_all_Inr)
  let ?rows = "map ?row [0..<unat nTotal]"
  let ?rx = "real (unat (sinksRx ! k))"
  let ?sum = "real (unat (qBytesSum (stats ! k)))" and ?cnt = "real (unat (qSamples (stats ! k)))"
  have thr: "rl_thrMbps (?rows ! k) = thrMbps (sinksRx ! k) simTime"
    and avg: "rl_avgQ (?rows ! k) = avgQ (stats ! k)"
    using assms(4) by simp_all
  have pos: "0 < unat (qSamples (stats ! k)) \<longleftrightarrow> 0 < qSamples (stats ! k)"
    by (simp add: word_less_nat_alt)
  show ?thesis
  proof (intro exI conjI impI allI)
    show "print_results nLegacy nTotal simTime sinksRx lambdas stats = Inr ?rows"
      by (rule rows)
    show "length ?rows = unat nTotal" by simp
    show "rl_thrMbps (?rows ! k) = fdiv (?rx * 8) (simTime * 1000000)"
      unfolding thr by (simp add: thrMbps_def)
    show "rl_thrMbps (?rows ! k) = Finite (?rx * 8 / (simTime * 1000000))" if "simTime \<noteq> 0"
      unfolding thr using that by (simp add: thrMbps_def fdiv_def)
    show "rl_thrMbps (?rows ! k) = NonFinite" if "simTime = 0"
      unfolding thr using that by (simp add: thrMbps_def fdiv_def)
    show "rl_avgQ (?rows ! k) = fdiv ?sum ?cnt" if "0 < qSamples (stats ! k)"
      unfolding avg using that by (simp add: avgQ_def)
    show "rl_avgQ (?rows ! k) = Finite (?sum / ?cnt)" if "0 < qSamples (stats ! k)"
      unfolding avg using that avgQ_Finite [of "stats ! k"] pos by simp
    show "rl_avgQ (?rows ! k) = Finite 0" if "qSamples (stats ! k) = 0"
      unfolding avg using that by (simp add: avgQ_def)
    show "fdiv ?sum ?cnt = NonFinite" if "qSamples (stats ! k) = 0"
      using that by (simp add: fdiv_def)
    show "rl_avgQ (?rows ! k) \<noteq> fdiv a 0" for a
      unfolding avg by (simp add: avgQ_Finite fdiv_zero)
  qed
qed

theorem reported_metrics_witness:
  "length [1500000 :: u64] = unat (1 :: u32) \<and>
   length [StaStats_init\<lparr>qBytesSum := 6000, qSamples := 4\<rparr>] = unat (1 :: u32) \<and>
   length [100 :: real] = unat (1 :: u32) \<and> (0 :: nat) < unat (1 :: u32) \<and>
   print_results 1 1 10 [1500000] [100]
     [StaStats_init\<lparr>qBytesSum := 6000, qSamples := 4\<rparr>]
   = Inr [\<lparr>rl_index = 0, rl_isLegacy = True, rl_lambda = 100, rl_thrMbps = Finite (12 / 10),
           rl_avgQ = Finite 1500,
           rl_stats = StaStats_init\<lparr>qBytesSum := 6000, qSamples := 4\<rparr>\<rparr>] \<and>
   print_results 1 1 0 [1500000] [100] [StaStats_init]
   = Inr [\<lparr>rl_index = 0, rl_isLegacy = True, rl_lambda = 100, rl_thrMbps = NonFinite,
           rl_avgQ = Finite 0, rl_stats = StaStats_init\<rparr>]"
  using reported_metrics [of "[1500000]" 1 "[StaStats_init\<lparr>qBytesSum := 6000, qSamples := 4\<rparr>]"
      "[100]" 0 1 10]
  by (simp add: print_results_def report_station_def nth_checked_def thrMbps_def avgQ_def
      fdiv_def StaStats_init_def)

section \<open>Properties of the traffic source\<close>

subsection \<open>Basic facts about the operations\<close>

lemma apps_upd_app: "apps (upd_app i f w) j = (if j = i then f (apps w i) else apps w j)"
  by (simp add: upd_app_def)

lemma sim_upd_app:
  "sim_events (upd_app i f w) = sim_events w" "sim_log (upd_app i f w) = sim_log w"
  "sim_uid (upd_app i f w) = sim_uid w" "sim_now (upd_app i f w) = sim_now w"
  by (simp_all add: upd_app_def)

lemma ScheduleNext_eq:
  "ScheduleNext i w =
     (if m_running (apps w i) \<and> \<not> m_lambda (apps w i) \<le> 0 then
        w\<lparr>sim_uid := sim_uid w + 1,
          sim_events := sim_events w @
            [\<lparr>ev_uid = sim_uid w,
              ev_ts = sim_now w + rng_values (m_rng (apps w i)) (rng_drawn (m_rng (apps w i))),
              ev_target = i, ev_cancelled = False\<rparr>],
          apps := (apps w)(i := (apps w i)
               \<lparr>m_rng := (m_rng (apps w i))\<lparr>rng_drawn := rng_drawn (m_rng (apps w i)) + 1\<rparr>,
                m_sendEvent := Some (sim_uid w)\<rparr>)\<rparr>
      else w)"
  by (simp add: ScheduleNext_def GetValue_def Schedule_def upd_app_def)

lemma next_event_in: "next_event es = Some e \<Longrightarrow> e \<in> set es"
  by (induction es arbitrary: e) (auto split: option.splits if_splits)

lemma IsPending_upd_app: "IsPending eid (upd_app i f w) = IsPending eid w"
  by (simp add: IsPending_def upd_app_def split: option.splits)

lemma Cancel_fields:
  "apps (Cancel eid w) = apps w" "sim_log (Cancel eid w) = sim_log w"
  "sim_uid (Cancel eid w) = sim_uid w" "sim_now (Cancel eid w) = sim_now w"
  by (simp_all add: Cancel_def split: option.splits)

lemma Cancel_events:
  "e \<in> set (sim_events (Cancel eid w)) \<Longrightarrow>
     \<exists>e0 \<in> set (sim_events w). ev_uid e = ev_uid e0 \<and> ev_target e = ev_target e0 \<and>
        ev_ts e = ev_ts e0 \<and> (ev_cancelled e0 \<longrightarrow> ev_cancelled e) \<and>
        (eid = Some (ev_uid e0) \<longrightarrow> ev_cancelled e) \<and> (\<not> ev_cancelled e \<longrightarrow> e = e0)"
  by (cases eid) (auto simp: Cancel_def)

lemma pending_for_Nil:
  "pending_for i w = [] \<longleftrightarrow> (\<forall>e \<in> set (sim_events w). ev_target e = i \<longrightarrow> ev_cancelled e)"
  by (auto simp: pending_for_def filter_empty_conv)

lemma pending_for_upd_app: "pending_for i (upd_app j f w) = pending_for i w"
  by (simp add: pending_for_def upd_app_def)

lemma StopApplication_eq:
  "StopApplication i w =
     (case m_socket (apps w i) of
        None \<Rightarrow> stop_cancel i w
      | Some s \<Rightarrow> upd_app i (\<lambda>a. a\<lparr>m_socket := Some (s @ [Close])\<rparr>) (stop_cancel i w))"
  by (simp add: StopApplication_def stop_cancel_def Let_def Cancel_fields apps_upd_app
      split: option.splits)

lemma stop_cancel_app:
  "apps (stop_cancel i w) = (apps w)(i := (apps w i)\<lparr>m_running := False\<rparr>)"
  by (simp add: stop_cancel_def Let_def Cancel_fields upd_app_def)

lemma stop_cancel_fields:
  "sim_log (stop_cancel i w) = sim_log w" "sim_uid (stop_cancel i w) = sim_uid w"
  "sim_now (stop_cancel i w) = sim_now w"
  by (simp_all add: stop_cancel_def Let_def Cancel_fields sim_upd_app)

lemma stop_cancel_events:
  assumes "e \<in> set (sim_events (stop_cancel i w))"
  shows "\<exists>e0 \<in> set (sim_events w). ev_uid e = ev_uid e0 \<and> ev_target e = ev_target e0 \<and>
           ev_ts e = ev_ts e0 \<and> (ev_cancelled e0 \<longrightarrow> ev_cancelled e) \<and>
           (m_sendEvent (apps w i) = Some (ev_uid e0) \<longrightarrow> ev_cancelled e) \<and>
           (\<not> ev_cancelled e \<longrightarrow> e = e0)"
proof (cases "IsPending (m_sendEvent (apps w i)) w")
  case True
  with assms have "e \<in> set (sim_events (Cancel (m_sendEvent (apps w i)) (upd_app i (\<lambda>a. a\<lparr>m_running := False\<rparr>) w)))"
    by (simp add: stop_cancel_def Let_def IsPending_upd_app apps_upd_app)
  from Cancel_events [OF this] show ?thesis by (simp add: sim_upd_app)
next
  case False
  with assms have e: "e \<in> set (sim_events w)"
    by (simp add: stop_cancel_def Let_def IsPending_upd_app apps_upd_app sim_upd_app)
  have "ev_cancelled e" if "m_sendEvent (apps w i) = Some (ev_uid e)"
    using False that e by (auto simp: IsPending_def)
  with e show ?thesis by blast
qed

lemma StopApplication_quiet:
  assumes "source_inv i w"
  shows "quiet i (StopApplication i w)"
proof -
  have "ev_cancelled e" if "e \<in> set (sim_events (stop_cancel i w))" "ev_target e = i" for e
    using stop_cancel_events [OF that(1)] that(2) assms
    by (fastforce simp: source_inv_def)
  then have "pending_for i (stop_cancel i w) = []" by (simp add: pending_for_Nil)
  then show ?thesis
    by (simp add: quiet_def StopApplication_eq pending_for_upd_app apps_upd_app stop_cancel_app
        split: option.splits)
qed


subsection \<open>Steps while no event of a source is pending\<close>

lemma pending_for_remove1:
  "pending_for i w = [] \<Longrightarrow> pending_for i (w\<lparr>sim_now := t, sim_events := remove1 e (sim_events w)\<rparr>) = []"
  by (auto simp: pending_for_Nil dest: notin_set_remove1)

lemma SendOnce_other:
  assumes "j \<noteq> i" and "SendOnce j w = Inr w'"
  shows "apps w' i = apps w i \<and> sim_log w' = sim_log w \<and> pending_for i w' = pending_for i w"
  using assms
  by (auto simp: SendOnce_def ScheduleNext_eq apps_upd_app sim_upd_app pending_for_def upd_app_def
      split: if_splits option.splits)

lemma SendOnce_not_running:
  "\<not> m_running (apps w i) \<Longrightarrow> SendOnce i w = Inr w"
  by (simp add: SendOnce_def)

lemma StartApplication_other:
  assumes "j \<noteq> i" and "StartApplication j w = Inr w'"
  shows "apps w' i = apps w i \<and> sim_log w' = sim_log w \<and> pending_for i w' = pending_for i w"
  using assms
  by (auto simp: StartApplication_def ScheduleNext_eq apps_upd_app sim_upd_app pending_for_def
      upd_app_def Let_def split: if_splits option.splits)

lemma StartApplication_idle:
  assumes "m_lambda (apps w i) \<le> 0" and "StartApplication i w = Inr w'"
  shows "m_sent (apps w' i) = m_sent (apps w i) \<and> m_lambda (apps w' i) = m_lambda (apps w i) \<and>
         sim_log w' = sim_log w \<and> sim_events w' = sim_events w"
  using assms
  by (auto simp: StartApplication_def ScheduleNext_eq apps_upd_app sim_upd_app upd_app_def Let_def
      split: if_splits option.splits)

lemma StopApplication_frame:
  "sim_log (StopApplication j w) = sim_log w"
  "m_sent (apps (StopApplication j w) i) = m_sent (apps w i)"
  "m_lambda (apps (StopApplication j w) i) = m_lambda (apps w i)"
  "m_running (apps (StopApplication j w) i) \<Longrightarrow> m_running (apps w i)"
  "j \<noteq> i \<Longrightarrow> apps (StopApplication j w) i = apps w i"
  by (auto simp: StopApplication_eq stop_cancel_app stop_cancel_fields sim_upd_app apps_upd_app
      split: option.splits if_splits)

lemma StopApplication_pending:
  "pending_for i w = [] \<Longrightarrow> pending_for i (StopApplication j w) = []"
proof -
  assume a: "pending_for i w = []"
  have "ev_cancelled e" if "e \<in> set (sim_events (stop_cancel j w))" "ev_target e = i" for e
    using stop_cancel_events [OF that(1)] that(2) a by (fastforce simp: pending_for_Nil)
  then have "pending_for i (stop_cancel j w) = []" by (simp add: pending_for_Nil)
  then show ?thesis
    by (simp add: StopApplication_eq pending_for_upd_app split: option.splits)
qed

lemma ProcessOneEvent_no_pending:
  assumes np: "pending_for i w = []" and st: "ProcessOneEvent w = Inr w'"
  shows "pending_for i w' = [] \<and> apps w' i = apps w i \<and> calls_of i w' = calls_of i w"
proof (cases "next_event (sim_events w)")
  case None
  with st np show ?thesis by (simp add: ProcessOneEvent_def)
next
  case (Some e)
  let ?w1 = "w\<lparr>sim_now := ev_ts e, sim_events := remove1 e (sim_events w)\<rparr>"
  have np1: "pending_for i ?w1 = []" using np by (rule pending_for_remove1)
  show ?thesis
  proof (cases "ev_cancelled e")
    case True
    with Some st have "w' = ?w1" by (simp add: ProcessOneEvent_def)
    with np1 show ?thesis by (simp add: calls_of_def)
  next
    case False
    from Some have "e \<in> set (sim_events w)" by (rule next_event_in)
    with False np have j: "ev_target e \<noteq> i" by (auto simp: pending_for_Nil)
    let ?w2 = "?w1\<lparr>sim_log := sim_log ?w1 @ [(ev_ts e, ev_target e)]\<rparr>"
    from Some False st have "SendOnce (ev_target e) ?w2 = Inr w'"
      by (simp add: ProcessOneEvent_def)
    from SendOnce_other [OF j this] np1 j show ?thesis
      by (simp add: calls_of_def pending_for_def)
  qed
qed

lemma step_no_pending:
  assumes "pending_for i w = []" and "step a w = Inr w'"
      and "a = StartApp i \<longrightarrow> m_lambda (apps w i) \<le> 0"
  shows "pending_for i w' = [] \<and> m_sent (apps w' i) = m_sent (apps w i) \<and>
         m_lambda (apps w' i) = m_lambda (apps w i) \<and> calls_of i w' = calls_of i w"
proof (cases a)
  case RunEvent
  with assms ProcessOneEvent_no_pending [of i w w'] show ?thesis by simp
next
  case (StartApp j)
  show ?thesis
  proof (cases "j = i")
    case True
    with StartApp assms StartApplication_idle [of w i w'] show ?thesis
      by (simp add: pending_for_def calls_of_def)
  next
    case False
    with StartApp assms StartApplication_other [of j i w w'] show ?thesis
      by (simp add: calls_of_def)
  qed
next
  case (StopApp j)
  with assms show ?thesis
    by (auto simp: StopApplication_frame StopApplication_pending calls_of_def)
qed

lemma exec_no_pending:
  assumes "pending_for i w = []" and "exec acts w = Inr w'"
      and "StartApp i \<in> set acts \<longrightarrow> m_lambda (apps w i) \<le> 0"
  shows "pending_for i w' = [] \<and> m_sent (apps w' i) = m_sent (apps w i) \<and>
         m_lambda (apps w' i) = m_lambda (apps w i) \<and> calls_of i w' = calls_of i w"
  using assms unfolding exec_def
proof (induction acts arbitrary: w)
  case Nil
  then show ?case by simp
next
  case (Cons a acts)
  from Cons.prems(2) obtain w1 where w1: "step a w = Inr w1" "foldM step acts w1 = Inr w'"
    by (auto split: sum.splits)
  from Cons.prems have "a = StartApp i \<longrightarrow> m_lambda (apps w i) \<le> 0" by simp
  from step_no_pending [OF Cons.prems(1) w1(1) this]
  have s: "pending_for i w1 = []" "m_sent (apps w1 i) = m_sent (apps w i)"
          "m_lambda (apps w1 i) = m_lambda (apps w i)" "calls_of i w1 = calls_of i w"
    by simp_all
  from Cons.prems(3) s(3) have "StartApp i \<in> set acts \<longrightarrow> m_lambda (apps w1 i) \<le> 0" by simp
  from Cons.IH [OF s(1) w1(2) this] s show ?case by simp
qed


subsection \<open>The invariants are kept by every step\<close>

lemma source_inv_pending:
  "source_inv i w \<longleftrightarrow>
     (\<forall>e \<in> set (pending_for i w).
        m_sendEvent (apps w i) = Some (ev_uid e) \<and> m_running (apps w i) \<and>
        \<not> m_lambda (apps w i) \<le> 0 \<and> m_socket (apps w i) \<noteq> None)"
  by (auto simp: source_inv_def pending_for_def)

lemma source_inv_no_pending: "pending_for i w = [] \<Longrightarrow> source_inv i w"
  by (simp add: source_inv_pending)

lemma uids_fresh_remove1:
  assumes "uids_fresh w"
  shows "uids_fresh (w\<lparr>sim_now := t, sim_events := remove1 e (sim_events w)\<rparr>)"
proof -
  from assms have d: "distinct (sim_events w)" "inj_on ev_uid (set (sim_events w))"
    by (simp_all add: uids_fresh_def distinct_map)
  have "set (remove1 e (sim_events w)) \<subseteq> set (sim_events w)" by (rule set_remove1_subset)
  with d have "distinct (map ev_uid (remove1 e (sim_events w)))"
    by (simp add: distinct_map inj_on_subset)
  with assms show ?thesis
    by (auto simp: uids_fresh_def dest: notin_set_remove1)
qed

lemma uids_fresh_log: "uids_fresh (w\<lparr>sim_log := l\<rparr>) = uids_fresh w"
  by (simp add: uids_fresh_def)

lemma uids_fresh_upd_app: "uids_fresh (upd_app i f w) = uids_fresh w"
  by (simp add: uids_fresh_def upd_app_def)

lemma uids_fresh_ScheduleNext: "uids_fresh w \<Longrightarrow> uids_fresh (ScheduleNext i w)"
  by (auto simp: ScheduleNext_eq uids_fresh_def)

lemma uids_fresh_SendOnce: "uids_fresh w \<Longrightarrow> SendOnce i w = Inr w' \<Longrightarrow> uids_fresh w'"
  by (auto simp: SendOnce_def uids_fresh_ScheduleNext uids_fresh_upd_app
      split: if_splits option.splits)

lemma uids_fresh_StartApplication:
  "uids_fresh w \<Longrightarrow> StartApplication i w = Inr w' \<Longrightarrow> uids_fresh w'"
  by (auto simp: StartApplication_def Let_def uids_fresh_ScheduleNext uids_fresh_upd_app
      split: option.splits)

lemma Cancel_uids: "map ev_uid (sim_events (Cancel eid w)) = map ev_uid (sim_events w)"
  by (cases eid) (simp_all add: Cancel_def comp_def if_distrib [of ev_uid] cong: if_cong)

lemma uids_fresh_StopApplication: "uids_fresh w \<Longrightarrow> uids_fresh (StopApplication i w)"
proof -
  assume a: "uids_fresh w"
  have m: "map ev_uid (sim_events (stop_cancel i w)) = map ev_uid (sim_events w)"
    by (simp add: stop_cancel_def Let_def Cancel_uids sim_upd_app)
  have "ev_uid e < sim_uid w" if "e \<in> set (sim_events (stop_cancel i w))" for e
    using stop_cancel_events [OF that] a by (auto simp: uids_fresh_def)
  with a m have "uids_fresh (stop_cancel i w)"
    by (simp add: uids_fresh_def stop_cancel_fields)
  then show ?thesis
    by (simp add: StopApplication_eq uids_fresh_upd_app split: option.splits)
qed

lemma uids_fresh_step: "uids_fresh w \<Longrightarrow> step a w = Inr w' \<Longrightarrow> uids_fresh w'"
proof (cases a)
  case RunEvent
  assume a: "uids_fresh w" "step a w = Inr w'"
  show ?thesis
  proof (cases "next_event (sim_events w)")
    case None
    with a RunEvent show ?thesis by (simp add: ProcessOneEvent_def)
  next
    case (Some e)
    let ?w1 = "w\<lparr>sim_now := ev_ts e, sim_events := remove1 e (sim_events w)\<rparr>"
    have "uids_fresh ?w1" using a(1) by (rule uids_fresh_remove1)
    with a(2) RunEvent Some show ?thesis
      by (auto simp: ProcessOneEvent_def Let_def uids_fresh_log split: if_splits
          dest!: uids_fresh_SendOnce [rotated])
  qed
qed (auto simp: uids_fresh_StartApplication uids_fresh_StopApplication)


lemma source_inv_other:
  assumes "source_inv i w" and "apps w' i = apps w i"
      and "set (pending_for i w') \<subseteq> set (pending_for i w)"
  shows "source_inv i w'"
  using assms by (auto simp: source_inv_pending)

lemma ScheduleNext_own:
  assumes "pending_for i w = []" and "m_running (apps w i) \<longrightarrow> m_socket (apps w i) \<noteq> None"
  shows "source_inv i (ScheduleNext i w)"
  using assms
  by (auto simp: ScheduleNext_eq source_inv_def pending_for_Nil)

lemma dispatched_alone:
  assumes inv: "source_inv i w" and fresh: "uids_fresh w"
      and e: "e \<in> set (sim_events w)" "ev_target e = i" "\<not> ev_cancelled e"
  shows "pending_for i (w\<lparr>sim_now := t, sim_events := remove1 e (sim_events w)\<rparr>) = []"
proof -
  from fresh have d: "distinct (sim_events w)" "inj_on ev_uid (set (sim_events w))"
    by (simp_all add: uids_fresh_def distinct_map)
  have "ev_cancelled e2" if "e2 \<in> set (remove1 e (sim_events w))" "ev_target e2 = i" for e2
  proof (rule ccontr)
    assume nc: "\<not> ev_cancelled e2"
    from that(1) d(1) have e2: "e2 \<in> set (sim_events w)" "e2 \<noteq> e" by auto
    from inv e have "m_sendEvent (apps w i) = Some (ev_uid e)"
      unfolding source_inv_def by blast
    moreover from inv e2(1) that(2) nc have "m_sendEvent (apps w i) = Some (ev_uid e2)"
      unfolding source_inv_def by blast
    ultimately have "ev_uid e2 = ev_uid e" by simp
    with d(2) e2 e(1) show False by (auto dest: inj_onD)
  qed
  then show ?thesis by (simp add: pending_for_Nil)
qed

lemma source_inv_step:
  assumes inv: "source_inv i w" and fresh: "uids_fresh w" and st: "step a w = Inr w'"
      and first: "a = StartApp i \<longrightarrow> pending_for i w = []"
  shows "source_inv i w'"
proof (cases a)
  case RunEvent
  show ?thesis
  proof (cases "next_event (sim_events w)")
    case None
    with st RunEvent inv show ?thesis by (simp add: ProcessOneEvent_def)
  next
    case (Some e)
    let ?w1 = "w\<lparr>sim_now := ev_ts e, sim_events := remove1 e (sim_events w)\<rparr>"
    let ?w2 = "?w1\<lparr>sim_log := sim_log ?w1 @ [(ev_ts e, ev_target e)]\<rparr>"
    from Some have ein: "e \<in> set (sim_events w)" by (rule next_event_in)
    have sub: "set (pending_for i ?w1) \<subseteq> set (pending_for i w)"
      using set_remove1_subset [of e "sim_events w"] by (auto simp: pending_for_def)
    show ?thesis
    proof (cases "ev_cancelled e")
      case True
      with st RunEvent Some have "w' = ?w1" by (simp add: ProcessOneEvent_def)
      with inv sub show ?thesis by (auto intro: source_inv_other)
    next
      case False
      with st RunEvent Some have so: "SendOnce (ev_target e) ?w2 = Inr w'"
        by (simp add: ProcessOneEvent_def)
      show ?thesis
      proof (cases "ev_target e = i")
        case True
        from dispatched_alone [OF inv fresh ein True False]
        have np: "pending_for i ?w2 = []" by (simp add: pending_for_def)
        from inv ein True False have sock: "m_socket (apps w i) \<noteq> None"
          by (auto simp: source_inv_def)
        show ?thesis
        proof (cases "\<not> m_running (apps w i) \<or>
                      (m_maxPackets (apps w i) \<noteq> 0 \<and> m_maxPackets (apps w i) \<le> m_sent (apps w i))")
          case True
          with so \<open>ev_target e = i\<close> have "w' = ?w2"
            by (auto simp: SendOnce_def split: if_splits)
          with np show ?thesis by (simp add: source_inv_no_pending)
        next
          case False
          with so \<open>ev_target e = i\<close> sock obtain s where
            "w' = ScheduleNext i (upd_app i (\<lambda>a. a\<lparr>m_socket := Some (s @ [Send (m_pktSize a)]),
                                      m_sent := m_sent a + 1\<rparr>) ?w2)"
            by (auto simp: SendOnce_def split: option.splits if_splits)
          moreover have "source_inv i (ScheduleNext i (upd_app i (\<lambda>a. a\<lparr>m_socket := Some (s @ [Send (m_pktSize a)]),
                                      m_sent := m_sent a + 1\<rparr>) ?w2))"
            using np by (intro ScheduleNext_own) (simp_all add: pending_for_upd_app apps_upd_app)
          ultimately show ?thesis by simp
        qed
      next
        case False
        from SendOnce_other [OF False so] inv sub show ?thesis
          by (auto simp: pending_for_def intro!: source_inv_other [of i w w'])
      qed
    qed
  qed
next
  case (StartApp j)
  show ?thesis
  proof (cases "j = i")
    case True
    with st StartApp obtain s where
      "w' = ScheduleNext i (upd_app i (\<lambda>a. a\<lparr>m_socket := Some (s @ [Bind, Connect (m_peer a)])\<rparr>)
                              (upd_app i (\<lambda>a. a\<lparr>m_running := True\<rparr>) w))"
      by (auto simp: StartApplication_def Let_def split: option.splits)
    moreover have "source_inv i (ScheduleNext i (upd_app i (\<lambda>a. a\<lparr>m_socket := Some (s @ [Bind, Connect (m_peer a)])\<rparr>)
                              (upd_app i (\<lambda>a. a\<lparr>m_running := True\<rparr>) w)))"
      using first StartApp True
      by (intro ScheduleNext_own) (simp_all add: pending_for_upd_app apps_upd_app)
    ultimately show ?thesis by simp
  next
    case False
    with st StartApp StartApplication_other [of j i w w'] inv show ?thesis
      by (auto intro!: source_inv_other [of i w w'])
  qed
next
  case (StopApp j)
  show ?thesis
  proof (cases "j = i")
    case True
    with st StopApp StopApplication_quiet [OF inv] show ?thesis
      by (auto simp: quiet_def source_inv_no_pending)
  next
    case False
    have "set (pending_for i (stop_cancel j w)) \<subseteq> set (pending_for i w)"
    proof
      fix e assume "e \<in> set (pending_for i (stop_cancel j w))"
      then have e: "e \<in> set (sim_events (stop_cancel j w))" "ev_target e = i" "\<not> ev_cancelled e"
        by (auto simp: pending_for_def)
      from stop_cancel_events [OF e(1)] e(2,3) show "e \<in> set (pending_for i w)"
        by (auto simp: pending_for_def)
    qed
    then have "set (pending_for i (StopApplication j w)) \<subseteq> set (pending_for i w)"
      by (simp add: StopApplication_eq pending_for_upd_app split: option.splits)
    moreover from False have "apps (StopApplication j w) i = apps w i"
      by (rule StopApplication_frame)
    ultimately have "source_inv i (StopApplication j w)"
      using inv by (auto intro: source_inv_other [of i w])
    with st StopApp show ?thesis by simp
  qed
qed


subsection \<open>Stopping, idling and sending\<close>

lemma step_stopped:
  assumes "\<not> m_running (apps w i)" and "a \<noteq> StartApp i" and "step a w = Inr w'"
  shows "\<not> m_running (apps w' i) \<and> m_sent (apps w' i) = m_sent (apps w i)"
proof (cases a)
  case RunEvent
  show ?thesis
  proof (cases "next_event (sim_events w)")
    case None
    with assms RunEvent show ?thesis by (simp add: ProcessOneEvent_def)
  next
    case (Some e)
    let ?w2 = "w\<lparr>sim_now := ev_ts e, sim_events := remove1 e (sim_events w),
                 sim_log := sim_log w @ [(ev_ts e, ev_target e)]\<rparr>"
    show ?thesis
    proof (cases "ev_cancelled e")
      case True
      with assms RunEvent Some show ?thesis by (auto simp: ProcessOneEvent_def)
    next
      case False
      with assms RunEvent Some have so: "SendOnce (ev_target e) ?w2 = Inr w'"
        by (simp add: ProcessOneEvent_def)
      show ?thesis
      proof (cases "ev_target e = i")
        case True
        with assms(1) have "SendOnce (ev_target e) ?w2 = Inr ?w2"
          by (simp add: SendOnce_not_running)
        with so assms(1) show ?thesis by auto
      next
        case False
        from SendOnce_other [OF False so] assms(1) show ?thesis by simp
      qed
    qed
  qed
next
  case (StartApp j)
  with assms StartApplication_other [of j i w w'] show ?thesis by auto
next
  case (StopApp j)
  with assms StopApplication_frame(2,4) [of j w i] show ?thesis by auto
qed

lemma exec_stopped:
  assumes "\<not> m_running (apps w i)" and "StartApp i \<notin> set acts" and "exec acts w = Inr w'"
  shows "\<not> m_running (apps w' i) \<and> m_sent (apps w' i) = m_sent (apps w i)"
  using assms unfolding exec_def
proof (induction acts arbitrary: w)
  case Nil
  then show ?case by simp
next
  case (Cons a acts)
  from Cons.prems(3) obtain w1 where w1: "step a w = Inr w1" "foldM step acts w1 = Inr w'"
    by (auto split: sum.splits)
  from Cons.prems(2) have "a \<noteq> StartApp i" "StartApp i \<notin> set acts" by auto
  from step_stopped [OF Cons.prems(1) this(1) w1(1)] Cons.IH [OF _ this(2) w1(2)]
  show ?case by simp
qed

lemma StopApplication_not_pending:
  "\<not> IsPending (m_sendEvent (apps (StopApplication i w) i)) (StopApplication i w)"
proof
  assume "IsPending (m_sendEvent (apps (StopApplication i w) i)) (StopApplication i w)"
  then obtain u e where u: "m_sendEvent (apps w i) = Some u"
      and e: "e \<in> set (sim_events (stop_cancel i w))" "ev_uid e = u" "\<not> ev_cancelled e"
    by (auto simp: IsPending_def StopApplication_eq stop_cancel_app apps_upd_app sim_upd_app
        split: option.splits)
  from stop_cancel_events [OF e(1)] u e(2,3) show False by auto
qed

text \<open>
  C1.  After \<open>StopApplication\<close> the source is not running and the event that
  \<open>m_sendEvent\<close> names is not pending.  In every continuation of the run in which the
  source is not started again, whatever the simulator and the other sources do, the
  source stays stopped and its sent-count does not change.  When the source's invariant
  held before the stop (every pending send of the source is the one \<open>m_sendEvent\<close>
  names), the stop leaves no pending send of the source in the queue, none appears
  later, and the simulator makes no further call of its \<open>SendOnce\<close>, also when a send
  was scheduled before the stop.
\<close>

theorem stop_then_no_further_sends:
  assumes "StartApp i \<notin> set acts" and "exec acts (StopApplication i w) = Inr w'"
  shows "\<not> m_running (apps (StopApplication i w) i) \<and>
         \<not> IsPending (m_sendEvent (apps (StopApplication i w) i)) (StopApplication i w) \<and>
         \<not> m_running (apps w' i) \<and> m_sent (apps w' i) = m_sent (apps w i) \<and>
         (source_inv i w \<longrightarrow>
            pending_for i (StopApplication i w) = [] \<and> pending_for i w' = [] \<and>
            calls_of i w' = calls_of i w)"
proof -
  have nr: "\<not> m_running (apps (StopApplication i w) i)"
    using StopApplication_frame(4) [of i w i]
    by (auto simp: StopApplication_eq stop_cancel_app apps_upd_app split: option.splits)
  from exec_stopped [OF nr assms]
  have a: "\<not> m_running (apps w' i)" "m_sent (apps w' i) = m_sent (apps w i)"
    by (simp_all add: StopApplication_frame)
  have b: "pending_for i (StopApplication i w) = [] \<and> pending_for i w' = [] \<and>
           calls_of i w' = calls_of i w" if "source_inv i w"
  proof -
    from StopApplication_quiet [OF that]
    have np: "pending_for i (StopApplication i w) = []" by (simp add: quiet_def)
    from assms(1) have "StartApp i \<in> set acts \<longrightarrow> m_lambda (apps (StopApplication i w) i) \<le> 0"
      by simp
    from exec_no_pending [OF np assms(2) this] np show ?thesis
      by (simp add: calls_of_def StopApplication_frame)
  qed
  from nr StopApplication_not_pending [of i w] a b show ?thesis by blast
qed

text \<open>
  C3.  For a source set up with a rate \<open>lam \<le> 0\<close> and no event in the queue,
  \<open>ScheduleNext\<close> changes nothing, at the start and at every later point of the run,
  so that it schedules no event.  Consequently, however long the run and whatever its
  steps (starting the source included), the source's sent-count stays 0, no event of
  the source is ever pending and its \<open>SendOnce\<close> is never called.
\<close>

theorem nonpositive_rate_idle:
  assumes "apps w i = Setup sock peer pktSize lam maxPackets draws" and "lam \<le> 0"
      and "pending_for i w = []" and "exec acts w = Inr w'"
  shows "ScheduleNext i w = w \<and> ScheduleNext i w' = w' \<and> m_sent (apps w' i) = 0 \<and>
         pending_for i w' = [] \<and> calls_of i w' = calls_of i w"
proof -
  from assms(1,2) have l: "m_lambda (apps w i) \<le> 0" and s: "m_sent (apps w i) = 0"
    by (simp_all add: Setup_def)
  then have "StartApp i \<in> set acts \<longrightarrow> m_lambda (apps w i) \<le> 0" by simp
  from exec_no_pending [OF assms(3,4) this] l s show ?thesis
    by (simp add: ScheduleNext_eq)
qed

text \<open>
  C2.  One invocation of \<open>SendOnce\<close>: the simulator processes a pending event of source
  \<open>i\<close>, in a world where the source's invariant holds.  The source is then running and
  the simulator calls its \<open>SendOnce\<close>, which returns without error.  If a send cap is
  set (\<open>m_maxPackets \<noteq> 0\<close>) and the sent-count has reached it, no source changes and
  nothing is scheduled: the queue only loses the processed event.  Otherwise one
  packet of \<open>m_pktSize\<close> bytes is handed to the socket, the sent-count grows by exactly
  1 (modulo \<open>2^64\<close>), and the next send is scheduled: a new pending event of the source,
  at the current time plus the delay drawn, which \<open>m_sendEvent\<close> names.  No other
  source changes.
\<close>

theorem send_once_dispatch:
  assumes inv: "source_inv i w"
      and nxt: "next_event (sim_events w) = Some e" and tgt: "ev_target e = i"
      and nc: "\<not> ev_cancelled e"
  shows "m_running (apps w i) \<and>
         ProcessOneEvent w =
           SendOnce i (w\<lparr>sim_now := ev_ts e, sim_events := remove1 e (sim_events w),
                          sim_log := sim_log w @ [(ev_ts e, i)]\<rparr>) \<and>
         (\<exists>w'. ProcessOneEvent w = Inr w' \<and>
            (if m_maxPackets (apps w i) \<noteq> 0 \<and> m_maxPackets (apps w i) \<le> m_sent (apps w i)
             then apps w' = apps w \<and> sim_events w' = remove1 e (sim_events w) \<and>
                  sim_uid w' = sim_uid w
             else (\<exists>s. m_socket (apps w i) = Some s \<and>
                        m_socket (apps w' i) = Some (s @ [Send (m_pktSize (apps w i))])) \<and>
                  m_sent (apps w' i) = m_sent (apps w i) + 1 \<and>
                  sim_events w' = remove1 e (sim_events w) @
                    [\<lparr>ev_uid = sim_uid w,
                      ev_ts = ev_ts e + rng_values (m_rng (apps w i)) (rng_drawn (m_rng (apps w i))),
                      ev_target = i, ev_cancelled = False\<rparr>] \<and>
                  m_sendEvent (apps w' i) = Some (sim_uid w) \<and>
                  IsPending (m_sendEvent (apps w' i)) w' \<and>
                  (\<forall>j. j \<noteq> i \<longrightarrow> apps w' j = apps w j)))"
proof -
  from nxt have "e \<in> set (sim_events w)" by (rule next_event_in)
  with inv tgt nc obtain s where
    st: "m_running (apps w i)" "\<not> m_lambda (apps w i) \<le> 0" "m_socket (apps w i) = Some s"
    by (auto simp: source_inv_def)
  let ?w2 = "w\<lparr>sim_now := ev_ts e, sim_events := remove1 e (sim_events w),
               sim_log := sim_log w @ [(ev_ts e, i)]\<rparr>"
  from nxt tgt nc have p: "ProcessOneEvent w = SendOnce i ?w2"
    by (simp add: ProcessOneEvent_def)
  show ?thesis
  proof (cases "m_maxPackets (apps w i) \<noteq> 0 \<and> m_maxPackets (apps w i) \<le> m_sent (apps w i)")
    case True
    with st have "SendOnce i ?w2 = Inr ?w2" by (simp add: SendOnce_def)
    with p st True show ?thesis by simp
  next
    case False
    with st have "SendOnce i ?w2 =
        Inr (ScheduleNext i (upd_app i (\<lambda>a. a\<lparr>m_socket := Some (s @ [Send (m_pktSize a)]),
                                      m_sent := m_sent a + 1\<rparr>) ?w2))"
      by (auto simp: SendOnce_def)
    with p st False show ?thesis
      by (simp add: ScheduleNext_eq apps_upd_app sim_upd_app IsPending_def upd_app_def)
  qed
qed


subsection \<open>The invariants hold along a run\<close>

text \<open>
  The invariant holds in every world that a run reaches: it holds while the queue is
  empty, every step keeps it as long as the source is started only while none of its
  events is pending, and so does a run in which the source is started once.
\<close>

lemma invariants_initial: "sim_events w = [] \<Longrightarrow> source_inv i w \<and> uids_fresh w"
  by (simp add: source_inv_def uids_fresh_def)

lemma invariants_exec:
  assumes "source_inv i w" and "uids_fresh w" and "StartApp i \<notin> set acts"
      and "exec acts w = Inr w'"
  shows "source_inv i w' \<and> uids_fresh w'"
  using assms unfolding exec_def
proof (induction acts arbitrary: w)
  case Nil
  then show ?case by simp
next
  case (Cons a acts)
  from Cons.prems(4) obtain w1 where w1: "step a w = Inr w1" "foldM step acts w1 = Inr w'"
    by (auto split: sum.splits)
  from Cons.prems(3) have n: "a = StartApp i \<longrightarrow> pending_for i w = []" "StartApp i \<notin> set acts"
    by auto
  from source_inv_step [OF Cons.prems(1,2) w1(1) n(1)] uids_fresh_step [OF Cons.prems(2) w1(1)]
    Cons.IH [OF _ _ n(2) w1(2)]
  show ?case by simp
qed

lemma invariants_lifecycle:
  assumes "sim_events w = []" and "StartApp i \<notin> set pre" and "StartApp i \<notin> set post"
      and "exec (pre @ StartApp i # post) w = Inr w'"
  shows "source_inv i w' \<and> uids_fresh w'"
proof -
  from assms(4) obtain w1 w2 where
    w: "exec pre w = Inr w1" "step (StartApp i) w1 = Inr w2" "exec post w2 = Inr w'"
    by (auto simp: exec_def foldM_append split: sum.splits)
  from assms(1) have i0: "source_inv i w" "uids_fresh w" "pending_for i w = []"
    by (simp_all add: invariants_initial pending_for_def)
  from invariants_exec [OF i0(1,2) assms(2) w(1)] have i1: "source_inv i w1" "uids_fresh w1"
    by simp_all
  from assms(2) have "StartApp i \<in> set pre \<longrightarrow> m_lambda (apps w i) \<le> 0" by simp
  from exec_no_pending [OF i0(3) w(1) this] have "pending_for i w1 = []" by simp
  then have "StartApp i = StartApp i \<longrightarrow> pending_for i w1 = []" by simp
  from source_inv_step [OF i1 w(2) this] uids_fresh_step [OF i1(2) w(2)]
  have "source_inv i w2" "uids_fresh w2" .
  from invariants_exec [OF this assms(3) w(3)] show ?thesis .
qed

subsection \<open>The example run\<close>

lemma demo_started_reached: "exec [StartApp 0] demo_world = Inr demo_started"
  by (simp add: exec_def demo_world_def demo_started_def StartApplication_def ScheduleNext_eq
      upd_app_def Setup_def Let_def)

lemma demo_started_inv: "source_inv 0 demo_started"
  by (simp add: source_inv_def demo_started_def)

theorem send_once_dispatch_witness:
  "source_inv 0 demo_started \<and>
   next_event (sim_events demo_started)
     = Some \<lparr>ev_uid = 0, ev_ts = 5, ev_target = 0, ev_cancelled = False\<rparr> \<and>
   (\<exists>w'. ProcessOneEvent demo_started = Inr w' \<and>
      m_socket (apps w' 0) = Some [Bind, Connect 7, Send 1200] \<and> m_sent (apps w' 0) = 1 \<and>
      sim_events w' = [\<lparr>ev_uid = 1, ev_ts = 11, ev_target = 0, ev_cancelled = False\<rparr>] \<and>
      m_sendEvent (apps w' 0) = Some 1)"
proof -
  have n: "next_event (sim_events demo_started)
             = Some \<lparr>ev_uid = 0, ev_ts = 5, ev_target = 0, ev_cancelled = False\<rparr>"
    by (simp add: demo_started_def)
  have f: "m_maxPackets (apps demo_started 0) = 0" "m_sent (apps demo_started 0) = 0"
      "m_socket (apps demo_started 0) = Some [Bind, Connect 7]"
      "m_pktSize (apps demo_started 0) = 1200" "sim_uid demo_started = 1"
      "rng_values (m_rng (apps demo_started 0)) (rng_drawn (m_rng (apps demo_started 0))) = 6"
      "remove1 \<lparr>ev_uid = 0, ev_ts = 5, ev_target = 0, ev_cancelled = False\<rparr>
         (sim_events demo_started) = []"
    by (simp_all add: demo_started_def)
  from send_once_dispatch [OF demo_started_inv n, THEN conjunct2, THEN conjunct2]
  obtain w' where
    "ProcessOneEvent demo_started = Inr w'"
    "m_socket (apps w' 0) = Some ([Bind, Connect 7] @ [Send 1200])"
    "m_sent (apps w' 0) = 0 + 1"
    "sim_events w' = [] @ [\<lparr>ev_uid = 1, ev_ts = 5 + 6, ev_target = 0, ev_cancelled = False\<rparr>]"
    "m_sendEvent (apps w' 0) = Some 1"
    by (auto simp: f)
  with demo_started_inv n show ?thesis by simp
qed

theorem stop_then_no_further_sends_witness:
  "StartApp 0 \<notin> set [RunEvent, StartApp 1, RunEvent] \<and> source_inv 0 demo_started \<and>
   (\<exists>w'. exec [RunEvent, StartApp 1, RunEvent] (StopApplication 0 demo_started) = Inr w' \<and>
      \<not> m_running (apps w' 0) \<and> m_sent (apps w' 0) = 0 \<and> calls_of 0 w' = [] \<and>
      sim_now w' = 5)"
proof -
  have "\<exists>w'. exec [RunEvent, StartApp 1, RunEvent] (StopApplication 0 demo_started) = Inr w' \<and>
          sim_now w' = 5"
    by (simp add: exec_def demo_started_def StopApplication_def StartApplication_def
        ProcessOneEvent_def ScheduleNext_eq IsPending_def Cancel_def upd_app_def Let_def Setup_def)
  then obtain w' where
    w': "exec [RunEvent, StartApp 1, RunEvent] (StopApplication 0 demo_started) = Inr w'"
        "sim_now w' = 5"
    by blast
  have "StartApp 0 \<notin> set [RunEvent, StartApp 1, RunEvent]" by simp
  moreover have "m_sent (apps demo_started 0) = 0" "calls_of 0 demo_started = []"
    by (simp_all add: demo_started_def calls_of_def)
  moreover note stop_then_no_further_sends [OF \<open>StartApp 0 \<notin> set [RunEvent, StartApp 1, RunEvent]\<close> w'(1)]
  ultimately show ?thesis
    using demo_started_inv w' by auto
qed

theorem nonpositive_rate_idle_witness:
  "apps demo_world 1 = Setup (Some []) 7 1200 0 0 (\<lambda>n. 5 + n) \<and> (0 :: real) \<le> 0 \<and>
   pending_for 1 demo_world = [] \<and>
   (\<exists>w'. exec [StartApp 1, StartApp 0, RunEvent, RunEvent] demo_world = Inr w' \<and>
      m_sent (apps w' 1) = 0 \<and> m_sent (apps w' 0) = 2 \<and> pending_for 1 w' = [])"
proof -
  have a: "apps demo_world 1 = Setup (Some []) 7 1200 0 0 (\<lambda>n. 5 + n)"
    by (simp add: demo_world_def)
  have p: "pending_for 1 demo_world = []" by (simp add: pending_for_def demo_world_def)
  have "\<exists>w'. exec [StartApp 1, StartApp 0, RunEvent, RunEvent] demo_world = Inr w' \<and>
          m_sent (apps w' 0) = 2"
    by (simp add: exec_def demo_world_def StartApplication_def SendOnce_def
        ProcessOneEvent_def ScheduleNext_eq upd_app_def Let_def Setup_def earlier_def)
  then obtain w' where
    w': "exec [StartApp 1, StartApp 0, RunEvent, RunEvent] demo_world = Inr w'"
        "m_sent (apps w' 0) = 2"
    by blast
  from nonpositive_rate_idle [OF a _ p w'(1)] a p w' show ?thesis by auto
qed

end
